theory Spec2Isabelle
  imports Main "HOL-Library.Multiset" "HOL-Library.AList"
begin

section \<open>The graph model of dag2dot\<close>

text \<open>
  The script keeps every job as an object of class \<open>Job\<close>; the fields \<open>parents\<close> and
  \<open>children\<close> are Python lists of references to other \<open>Job\<close> objects, and the DAG is a
  dictionary from job identifiers to \<open>Job\<close> objects. Objects are compared by identity
  (\<open>Job\<close> defines no \<open>__eq__\<close>), so the model is an explicit store: an object is its
  address, the store is the list of all objects ever created (a new object takes the next
  free address), and a reference is an address. The dictionary is an association list
  whose order stands for the iteration order of the dictionary.
\<close>

type_synonym addr = nat

record Job =
  job_id :: "string option"
  job_name :: "string option"
  level :: int
  parents :: "addr list"
  children :: "addr list"

type_synonym heap = "Job list"

type_synonym dag = "(string \<times> addr) list"

datatype error = ValueError | KeyError | IndexError | AttributeError | Exception string


section \<open>remove_xforms\<close>

text \<open>
  \<open>for p in job.parents: p.children.remove(job)\<close>. \<open>list.remove\<close> deletes the first
  occurrence and raises \<open>ValueError\<close> when there is none.
\<close>

fun remove_from_children :: "heap \<Rightarrow> addr \<Rightarrow> addr list \<Rightarrow> error + heap" where
  "remove_from_children h job [] = Inr h"
| "remove_from_children h job (p # ps) =
     (if job \<in> set (children (h ! p))
      then remove_from_children
             (h[p := (h ! p)\<lparr>children := remove1 job (children (h ! p))\<rparr>]) job ps
      else Inl ValueError)"

text \<open>\<open>for c in job.children: c.parents.remove(job)\<close>.\<close>

fun remove_from_parents :: "heap \<Rightarrow> addr \<Rightarrow> addr list \<Rightarrow> error + heap" where
  "remove_from_parents h job [] = Inr h"
| "remove_from_parents h job (c # cs) =
     (if job \<in> set (parents (h ! c))
      then remove_from_parents
             (h[c := (h ! c)\<lparr>parents := remove1 job (parents (h ! c))\<rparr>]) job cs
      else Inl ValueError)"

text \<open>\<open>job.name in xforms\<close>, where \<open>job.name\<close> may still be \<open>None\<close>.\<close>

definition name_in :: "string option \<Rightarrow> string list \<Rightarrow> bool" where
  "name_in nm xforms = (case nm of None \<Rightarrow> False | Some s \<Rightarrow> s \<in> set xforms)"

text \<open>
  The loop \<open>for id in dag.keys()\<close> runs over a copy of the keys, taken before the first
  deletion; \<open>dag[id]\<close> raises \<open>KeyError\<close> for a missing key. The message printed for each
  removed job is not part of the model.
\<close>

fun remove_xforms_loop :: "heap \<Rightarrow> dag \<Rightarrow> string list \<Rightarrow> string list \<Rightarrow> error + heap \<times> dag" where
  "remove_xforms_loop h dag xforms [] = Inr (h, dag)"
| "remove_xforms_loop h dag xforms (i # ids) =
     (case map_of dag i of
        None \<Rightarrow> Inl KeyError
      | Some job \<Rightarrow>
          if name_in (job_name (h ! job)) xforms
          then (case remove_from_children h job (parents (h ! job)) of
                  Inl e \<Rightarrow> Inl e
                | Inr h1 \<Rightarrow>
                    (case remove_from_parents h1 job (children (h1 ! job)) of
                       Inl e \<Rightarrow> Inl e
                     | Inr h2 \<Rightarrow> remove_xforms_loop h2 (AList.delete i dag) xforms ids))
          else remove_xforms_loop h dag xforms ids)"

definition remove_xforms :: "heap \<Rightarrow> dag \<Rightarrow> string list \<Rightarrow> error + heap \<times> dag" where
  "remove_xforms h dag xforms =
     (if length xforms = 0 then Inr (h, dag)
      else remove_xforms_loop h dag xforms (map fst dag))"

section \<open>inv_reachable\<close>

text \<open>
  The list \<open>fifo\<close> is used as a stack: \<open>pop()\<close> takes its last element and \<open>append\<close>
  adds at the end. The model keeps the stack with its top at the head. The inner loop
  \<open>for p in n.parents\<close> returns \<open>True\<close> at the first parent equal to \<open>b\<close>.
\<close>

fun scan_parents :: "addr list \<Rightarrow> addr \<Rightarrow> addr list \<Rightarrow> bool \<times> addr list" where
  "scan_parents [] b fifo = (False, fifo)"
| "scan_parents (p # ps) b fifo =
     (if p = b then (True, fifo) else scan_parents ps b (p # fifo))"

text \<open>The \<open>while\<close> loop need not end on a graph with a cycle: no result is \<open>None\<close>.\<close>

partial_function (option) inv_reachable_loop :: "heap \<Rightarrow> addr list \<Rightarrow> addr \<Rightarrow> bool option" where
  "inv_reachable_loop h fifo b =
     (case fifo of
        [] \<Rightarrow> Some False
      | n # rest \<Rightarrow>
          (case scan_parents (parents (h ! n)) b rest of
             (found, fifo') \<Rightarrow> if found then Some True else inv_reachable_loop h fifo' b))"

declare inv_reachable_loop.simps [code]

definition inv_reachable :: "heap \<Rightarrow> addr \<Rightarrow> addr \<Rightarrow> bool option" where
  "inv_reachable h a b = inv_reachable_loop h [a] b"

section \<open>simplify\<close>

text \<open>The roots: \<open>for id in dag: j = dag[id]; if len(j.parents) == 0: roots.append(j)\<close>.\<close>

definition find_roots :: "heap \<Rightarrow> dag \<Rightarrow> addr list" where
  "find_roots h dag = filter (\<lambda>j. length (parents (h ! j)) = 0) (map snd dag)"

text \<open>The surrogate root, after its children have been appended.\<close>

definition surrogate_root :: "addr list \<Rightarrow> Job" where
  "surrogate_root roots =
     \<lparr>job_id = Some ''root'', job_name = Some ''root'', level = 0, parents = [], children = roots\<rparr>"

text \<open>
  \<open>for c in n.children: fifo.append(c); c.level = max(c.level, n.level + 1)\<close>.
  The level of \<open>n\<close> is read again in every round.
\<close>

fun label_children :: "heap \<Rightarrow> addr \<Rightarrow> addr list \<Rightarrow> addr list \<Rightarrow> heap \<times> addr list" where
  "label_children h n [] fifo = (h, fifo)"
| "label_children h n (c # cs) fifo =
     label_children
       (h[c := (h ! c)\<lparr>level := max (level (h ! c)) (level (h ! n) + 1)\<rparr>]) n cs (c # fifo)"

partial_function (option) label_levels :: "heap \<Rightarrow> addr list \<Rightarrow> heap option" where
  "label_levels h fifo =
     (case fifo of
        [] \<Rightarrow> Some h
      | n # rest \<Rightarrow>
          (case label_children h n (children (h ! n)) rest of
             (h', fifo') \<Rightarrow> label_levels h' fifo'))"

declare label_levels.simps [code]

text \<open>
  The body of the second loop, for the children \<open>n.children[:]\<close> copied when \<open>n\<close> is
  popped. The message written to standard error is not part of the model.
\<close>

fun eliminate_children ::
  "heap \<Rightarrow> addr \<Rightarrow> addr list \<Rightarrow> addr list \<Rightarrow> (error + heap \<times> addr list) option" where
  "eliminate_children h n [] fifo = Some (Inr (h, fifo))"
| "eliminate_children h n (c # cs) fifo =
     (if level (h ! c) - level (h ! n) > 1
      then (if n \<in> set (parents (h ! c))
            then (let h1 = h[c := (h ! c)\<lparr>parents := remove1 n (parents (h ! c))\<rparr>]
                  in case inv_reachable h1 c n of
                       None \<Rightarrow> None
                     | Some True \<Rightarrow>
                         if c \<in> set (children (h1 ! n))
                         then eliminate_children
                                (h1[n := (h1 ! n)\<lparr>children := remove1 c (children (h1 ! n))\<rparr>])
                                n cs (c # fifo)
                         else Some (Inl ValueError)
                     | Some False \<Rightarrow>
                         eliminate_children
                           (h1[c := (h1 ! c)\<lparr>parents := parents (h1 ! c) @ [n]\<rparr>])
                           n cs (c # fifo))
            else Some (Inl ValueError))
      else eliminate_children h n cs (c # fifo))"

partial_function (option) eliminate_edges :: "heap \<Rightarrow> addr list \<Rightarrow> (error + heap) option" where
  "eliminate_edges h fifo =
     (case fifo of
        [] \<Rightarrow> Some (Inr h)
      | n # rest \<Rightarrow>
          (case eliminate_children h n (children (h ! n)) rest of
             None \<Rightarrow> None
           | Some (Inl e) \<Rightarrow> Some (Inl e)
           | Some (Inr (h', fifo')) \<Rightarrow> eliminate_edges h' fifo'))"

declare eliminate_edges.simps [code]

text \<open>
  The first half of \<open>simplify\<close>: the surrogate root is a new object (its address is the
  next free one), and the levels are labelled from it.
\<close>

definition assign_levels :: "heap \<Rightarrow> dag \<Rightarrow> heap option" where
  "assign_levels h dag =
     (let roots = find_roots h dag;
          root = length h;
          h0 = h @ [surrogate_root roots]
      in label_levels h0 [root])"

definition simplify :: "heap \<Rightarrow> dag \<Rightarrow> (error + heap \<times> dag) option" where
  "simplify h dag =
     (case assign_levels h dag of
        None \<Rightarrow> None
      | Some h1 \<Rightarrow>
          (case eliminate_edges h1 [length h] of
             None \<Rightarrow> None
           | Some (Inl e) \<Rightarrow> Some (Inl e)
           | Some (Inr h2) \<Rightarrow> Some (Inr (h2, dag))))"

section \<open>emit_dot\<close>

definition COLORS :: "string list" where
  "COLORS =
     [''#1b9e77'', ''#d95f02'', ''#7570b3'', ''#e7298a'', ''#66a61e'',
      ''#e6ab02'', ''#a6761d'', ''#666666'', ''#8dd3c7'', ''#bebada'',
      ''#fb8072'', ''#80b1d3'', ''#fdb462'', ''#b3de69'', ''#fccde5'',
      ''#d9d9d9'', ''#bc80bd'', ''#ccebc5'', ''#ffed6f'', ''#ffffb3'']"

text \<open>\<open>COLORS[color]\<close> for a counter that is never negative.\<close>

definition COLORS_at :: "nat \<Rightarrow> error + string" where
  "COLORS_at color = (if color < length COLORS then Inr (COLORS ! color) else Inl IndexError)"

text \<open>\<open>s.replace("-", "_")\<close>.\<close>

definition replace_dash :: "string \<Rightarrow> string" where
  "replace_dash s = map (\<lambda>c. if c = CHR ''-'' then CHR ''_'' else c) s"

text \<open>What \<open>%s\<close> prints for a field that holds a string or \<open>None\<close>.\<close>

definition str_of :: "string option \<Rightarrow> string" where
  "str_of v = (case v of None \<Rightarrow> ''None'' | Some s \<Rightarrow> s)"

definition node_line :: "string option \<Rightarrow> string \<Rightarrow> string option \<Rightarrow> string" where
  "node_line i color label =
     [CHR 0x09] @ str_of i @ '' [color=\"'' @ color @ ''\",label=\"'' @ str_of label @ ''\"]''
       @ [CHR 0x0A]"

definition edge_line :: "string option \<Rightarrow> string option \<Rightarrow> string" where
  "edge_line i c = [CHR 0x09] @ ''\"'' @ str_of i @ ''\" -> \"'' @ str_of c @ ''\"'' @ [CHR 0x0A]"

text \<open>
  The first loop over the dictionary. \<open>xforms\<close> maps a job name to the number of its
  colour; \<open>j.id.replace\<close> raises \<open>AttributeError\<close> on \<open>None\<close>.
\<close>

fun emit_nodes ::
  "heap \<Rightarrow> addr list \<Rightarrow> bool \<Rightarrow> (string option \<rightharpoonup> nat) \<Rightarrow> nat \<Rightarrow> string
     \<Rightarrow> error + heap \<times> (string option \<rightharpoonup> nat) \<times> nat \<times> string" where
  "emit_nodes h [] use_xforms xforms next_color out = Inr (h, xforms, next_color, out)"
| "emit_nodes h (j # js) use_xforms xforms next_color out =
     (case job_id (h ! j) of
        None \<Rightarrow> Inl AttributeError
      | Some i \<Rightarrow>
          (let h1 = h[j := (h ! j)\<lparr>job_id := Some (replace_dash i)\<rparr>];
               label = (if use_xforms then job_name (h1 ! j) else job_id (h1 ! j));
               (xforms1, next_color1) =
                 (if xforms (job_name (h1 ! j)) = None
                  then (xforms(job_name (h1 ! j) \<mapsto> next_color), next_color + 1)
                  else (xforms, next_color))
           in case xforms1 (job_name (h1 ! j)) of
                None \<Rightarrow> Inl KeyError
              | Some color \<Rightarrow>
                  (case COLORS_at color of
                     Inl e \<Rightarrow> Inl e
                   | Inr col \<Rightarrow>
                       emit_nodes h1 js use_xforms xforms1 next_color1
                         (out @ node_line (job_id (h1 ! j)) col label))))"

text \<open>The second loop: one line for every entry of every \<open>children\<close> list.\<close>

definition emit_edges :: "heap \<Rightarrow> addr list \<Rightarrow> string" where
  "emit_edges h js =
     concat (map (\<lambda>j. concat (map (\<lambda>c. edge_line (job_id (h ! j)) (job_id (h ! c)))
                                  (children (h ! j)))) js)"

definition dot_header :: string where
  "dot_header =
     ''digraph dag {'' @ [CHR 0x0A] @
     [CHR 0x09] @ ''size=\"8.0,10.0\"'' @ [CHR 0x0A] @
     [CHR 0x09] @ ''ratio=fill'' @ [CHR 0x0A] @
     [CHR 0x09] @ ''node [shape=ellipse, style=filled]'' @ [CHR 0x0A] @
     [CHR 0x09] @ ''edge [arrowhead=normal, arrowsize=1.0]'' @ [CHR 0x0A] @
     [CHR 0x09] @ [CHR 0x0A]"

text \<open>The result is the store (the identifiers are rewritten) and the text written.\<close>

definition emit_dot :: "heap \<Rightarrow> dag \<Rightarrow> bool \<Rightarrow> error + heap \<times> string" where
  "emit_dot h dag use_xforms =
     (case emit_nodes h (map snd dag) use_xforms Map.empty 0 dot_header of
        Inl e \<Rightarrow> Inl e
      | Inr (h1, xforms, next_color, out) \<Rightarrow>
          Inr (h1, out @ [CHR 0x0A] @ emit_edges h1 (map snd dag) @ ''}'' @ [CHR 0x0A]))"

section \<open>The loaders\<close>

text \<open>
  The handler of the DAX parser. Its attribute \<open>lastchild\<close> does not exist before the
  first \<open>child\<close> element (\<open>None\<close> here); afterwards it holds a string or Python's
  \<open>None\<close>. \<open>attrs.get\<close> is a lookup that gives \<open>None\<close> for a missing attribute.
\<close>

record DAXHandler =
  handler_dag :: dag
  lastchild :: "string option option"


text \<open>\<open>endElement\<close>: leaving a \<open>child\<close> element resets \<open>lastchild\<close> to \<open>None\<close>.\<close>

definition endElement :: "DAXHandler \<Rightarrow> string \<Rightarrow> DAXHandler" where
  "endElement self name = (if name = ''child'' then self\<lparr>lastchild := Some None\<rparr> else self)"


section \<open>Well-formed graphs\<close>

definition nodes :: "dag \<Rightarrow> addr set" where
  "nodes dag = set (map snd dag)"

text \<open>
  A well-formed graph: the dictionary has one entry for an identifier and one identifier
  for an object; every job of the dictionary is in the store, its lists hold jobs of the
  dictionary, each once, and \<open>p\<close> is a parent of \<open>c\<close> exactly when \<open>c\<close> is a child of \<open>p\<close>.
\<close>

definition well_formed :: "heap \<Rightarrow> dag \<Rightarrow> bool" where
  "well_formed h dag \<longleftrightarrow>
     distinct (map fst dag) \<and> distinct (map snd dag) \<and>
     (\<forall>a \<in> set (map snd dag).
        a < length h \<and>
        distinct (parents (h ! a)) \<and> distinct (children (h ! a)) \<and>
        (\<forall>p \<in> set (parents (h ! a)). p \<in> set (map snd dag) \<and> a \<in> set (children (h ! p))) \<and>
        (\<forall>c \<in> set (children (h ! a)). c \<in> set (map snd dag) \<and> a \<in> set (parents (h ! c))))"

text \<open>The edges of the graph, in the order in which \<open>emit_dot\<close> writes them.\<close>

definition edge_list :: "heap \<Rightarrow> dag \<Rightarrow> (addr \<times> addr) list" where
  "edge_list h dag = concat (map (\<lambda>j. map (\<lambda>c. (j, c)) (children (h ! j))) (map snd dag))"

definition edges :: "heap \<Rightarrow> dag \<Rightarrow> (addr \<times> addr) set" where
  "edges h dag = set (edge_list h dag)"

definition acyclic_dag :: "heap \<Rightarrow> dag \<Rightarrow> bool" where
  "acyclic_dag h dag \<longleftrightarrow> acyclic (edges h dag)"


text \<open>\<open>a\<close> can reach \<open>b\<close>: a path of edges leads from \<open>a\<close> to \<open>b\<close>.\<close>

definition reaches :: "heap \<Rightarrow> dag \<Rightarrow> addr \<Rightarrow> addr \<Rightarrow> bool" where
  "reaches h dag a b \<longleftrightarrow> (a, b) \<in> (edges h dag)\<^sup>*"

text \<open>The levels as the constructor of \<open>Job\<close> leaves them.\<close>

definition unlabelled :: "heap \<Rightarrow> dag \<Rightarrow> bool" where
  "unlabelled h dag \<longleftrightarrow> (\<forall>a \<in> set (map snd dag). level (h ! a) = 0)"

section \<open>Invariants of the loops of simplify\<close>

text \<open>The edges that leave the objects of a set \<open>V\<close>.\<close>

definition graph :: "heap \<Rightarrow> addr set \<Rightarrow> (addr \<times> addr) set" where
  "graph h V = {(p, c). p \<in> V \<and> c \<in> set (children (h ! p))}"

text \<open>The first loop changes levels only.\<close>

definition same_links :: "heap \<Rightarrow> heap \<Rightarrow> bool" where
  "same_links h0 h \<longleftrightarrow>
     length h = length h0 \<and>
     (\<forall>a. job_id (h ! a) = job_id (h0 ! a) \<and> job_name (h ! a) = job_name (h0 ! a) \<and>
          parents (h ! a) = parents (h0 ! a) \<and> children (h ! a) = children (h0 ! a))"

text \<open>A job has been labelled when it is the surrogate root or its level is not 0 any more.\<close>

definition visited :: "heap \<Rightarrow> addr \<Rightarrow> addr \<Rightarrow> bool" where
  "visited h r a \<longleftrightarrow> a = r \<or> level (h ! a) \<noteq> 0"

text \<open>
  The invariant of the first loop, for the store \<open>h0\<close> at its start, the objects \<open>V\<close> and
  the surrogate root \<open>r\<close>: the level of a labelled job is the length of a path from the
  root, and a labelled job that is not on the stack has all its children above it.
\<close>

definition level_inv :: "heap \<Rightarrow> addr set \<Rightarrow> addr \<Rightarrow> heap \<Rightarrow> addr list \<Rightarrow> bool" where
  "level_inv h0 V r h fifo \<longleftrightarrow>
     same_links h0 h \<and> set fifo \<subseteq> V \<and> level (h ! r) = 0 \<and>
     (\<forall>a \<in> V. 0 \<le> level (h ! a)) \<and>
     (\<forall>n \<in> set fifo. visited h r n) \<and>
     (\<forall>a \<in> V. visited h r a \<longrightarrow> (\<exists>k. (r, a) \<in> graph h0 V ^^ k \<and> level (h ! a) = int k)) \<and>
     (\<forall>p \<in> V. visited h r p \<longrightarrow>
        p \<in> set fifo \<or> (\<forall>c \<in> set (children (h ! p)). level (h ! p) + 1 \<le> level (h ! c)))"

text \<open>
  The store between the two loops, with the surrogate root \<open>r\<close>: the root is not in the
  dictionary, its children are jobs of level 1, every edge goes up by at least one level,
  and every job has a parent (a job or the root) exactly one level below it.
\<close>

definition labelled :: "heap \<Rightarrow> dag \<Rightarrow> addr \<Rightarrow> bool" where
  "labelled h dag r \<longleftrightarrow>
     r < length h \<and> r \<notin> nodes dag \<and> level (h ! r) = 0 \<and> parents (h ! r) = [] \<and>
     distinct (children (h ! r)) \<and>
     (\<forall>c \<in> set (children (h ! r)). c \<in> nodes dag \<and> level (h ! c) = 1) \<and>
     (\<forall>p \<in> nodes dag. \<forall>c \<in> set (children (h ! p)). level (h ! p) + 1 \<le> level (h ! c)) \<and>
     (\<forall>v \<in> nodes dag. \<exists>p \<in> insert r (nodes dag).
        v \<in> set (children (h ! p)) \<and> level (h ! v) = level (h ! p) + 1)"

text \<open>The parent links of the objects of a set \<open>V\<close>, as pairs (parent, child).\<close>

definition up :: "heap \<Rightarrow> addr set \<Rightarrow> (addr \<times> addr) set" where
  "up h V = {(p, x). x \<in> V \<and> p \<in> set (parents (h ! x))}"

text \<open>
  An edge is redundant when its two ends are joined by a path that does not use it.
  A job is settled when each of its edges goes up one level or is not redundant.
\<close>

definition redundant :: "heap \<Rightarrow> dag \<Rightarrow> addr \<Rightarrow> addr \<Rightarrow> bool" where
  "redundant h dag n c \<longleftrightarrow> (n, c) \<in> (edges h dag - {(n, c)})\<^sup>+"

definition settled :: "heap \<Rightarrow> dag \<Rightarrow> addr \<Rightarrow> bool" where
  "settled h dag n \<longleftrightarrow>
     (\<forall>c \<in> set (children (h ! n)). level (h ! c) - level (h ! n) \<le> 1 \<or> \<not> redundant h dag n c)"

text \<open>The edges that go up exactly one level.\<close>

definition tight :: "heap \<Rightarrow> addr set \<Rightarrow> (addr \<times> addr) set" where
  "tight h V = {(p, c). p \<in> V \<and> c \<in> set (children (h ! p)) \<and> level (h ! c) = level (h ! p) + 1}"

text \<open>
  The invariant of the second loop, for the store \<open>h1\<close> at its start: the graph stays
  well-formed, only \<open>parents\<close> and \<open>children\<close> of jobs change, no edge is added, the
  edges that go up one level stay, and the same jobs reach the same jobs.
\<close>

definition elim_inv :: "heap \<Rightarrow> dag \<Rightarrow> addr \<Rightarrow> heap \<Rightarrow> bool" where
  "elim_inv h1 dag r h \<longleftrightarrow>
     well_formed h dag \<and> length h = length h1 \<and> h ! r = h1 ! r \<and>
     (\<forall>a. level (h ! a) = level (h1 ! a) \<and> job_id (h ! a) = job_id (h1 ! a) \<and>
          job_name (h ! a) = job_name (h1 ! a)) \<and>
     edges h dag \<subseteq> edges h1 dag \<and>
     tight h1 (nodes dag) \<subseteq> edges h dag \<and>
     (edges h dag)\<^sup>* = (edges h1 dag)\<^sup>*"

text \<open>
  What \<open>simplify\<close> may change in the store: no object is created or dropped, identifiers
  and names stay, and no list of parents or of children gets a new member.
\<close>

definition frame :: "heap \<Rightarrow> heap \<Rightarrow> bool" where
  "frame h h' \<longleftrightarrow>
     length h' = length h \<and>
     (\<forall>a. job_id (h' ! a) = job_id (h ! a) \<and> job_name (h' ! a) = job_name (h ! a) \<and>
          set (parents (h' ! a)) \<subseteq> set (parents (h ! a)) \<and>
          set (children (h' ! a)) \<subseteq> set (children (h ! a)))"

text \<open>
  References are valid: the jobs of the dictionary are objects of the store, and the
  lists of every object of the store hold objects of the store.
\<close>

definition closed_heap :: "heap \<Rightarrow> dag \<Rightarrow> bool" where
  "closed_heap h dag \<longleftrightarrow>
     (\<forall>a \<in> set (map snd dag). a < length h) \<and>
     (\<forall>j \<in> set h. (\<forall>p \<in> set (parents j). p < length h) \<and>
                    (\<forall>c \<in> set (children j). c < length h))"


section \<open>Example graphs\<close>

definition mk_job :: "string \<Rightarrow> int \<Rightarrow> addr list \<Rightarrow> addr list \<Rightarrow> Job" where
  "mk_job i l ps cs = \<lparr>job_id = Some i, job_name = Some i, level = l, parents = ps, children = cs\<rparr>"

text \<open>The chain \<open>A \<rightarrow> B \<rightarrow> C\<close>.\<close>

definition chain_heap :: heap where
  "chain_heap = [mk_job ''A'' 0 [] [1], mk_job ''B'' 0 [0] [2], mk_job ''C'' 0 [1] []]"

definition chain_dag :: dag where
  "chain_dag = [(''A'', 0), (''B'', 1), (''C'', 2)]"

text \<open>The diamond \<open>A \<rightarrow> B, A \<rightarrow> C, B \<rightarrow> D, C \<rightarrow> D\<close> with the shortcut \<open>A \<rightarrow> D\<close>.\<close>

definition diamond_heap :: heap where
  "diamond_heap =
     [mk_job ''A'' 0 [] [1, 2, 3], mk_job ''B'' 0 [0] [3], mk_job ''C'' 0 [0] [3],
      mk_job ''D'' 0 [1, 2, 0] []]"

definition diamond_dag :: dag where
  "diamond_dag = [(''A'', 0), (''B'', 1), (''C'', 2), (''D'', 3)]"

text \<open>The store of the diamond after the first loop of \<open>simplify\<close>, and after both.\<close>

definition diamond_levelled :: heap where
  "diamond_levelled =
     [mk_job ''A'' 1 [] [1, 2, 3], mk_job ''B'' 2 [0] [3], mk_job ''C'' 2 [0] [3],
      mk_job ''D'' 3 [1, 2, 0] [], surrogate_root [0]]"

definition diamond_simplified :: heap where
  "diamond_simplified =
     [mk_job ''A'' 1 [] [1, 2], mk_job ''B'' 2 [0] [3], mk_job ''C'' 2 [0] [3],
      mk_job ''D'' 3 [1, 2] [], surrogate_root [0]]"









text \<open>A single job.\<close>

definition single_heap :: heap where
  "single_heap = [mk_job ''A'' 0 [] []]"

definition single_dag :: dag where
  "single_dag = [(''A'', 0)]"

text \<open>Twenty-one jobs without edges, each with a name of its own.\<close>

definition many_names :: "string list" where
  "many_names = map (\<lambda>k. replicate (Suc k) CHR ''x'') [0 ..< 21]"

definition many_heap :: heap where
  "many_heap = map (\<lambda>n. mk_job n 0 [] []) many_names"

definition many_dag :: dag where
  "many_dag = zip many_names [0 ..< 21]"

section \<open>Properties of the loaders and of emit_dot\<close>





text \<open>
  C8: with twenty-one jobs of twenty-one different names, the twenty-first name gets
  the colour number 20, and \<open>COLORS[20]\<close> is out of range: \<open>emit_dot\<close> raises
  \<open>IndexError\<close> instead of wrapping around.
\<close>

theorem emit_dot_palette_exhausted:
  "emit_dot many_heap many_dag True = Inl IndexError"
  by code_simp

section \<open>Properties of remove_xforms\<close>

lemma heap_upd_nth:
  "h[c := f (h ! c)] ! a = (if a = c \<and> c < length h then f (h ! c) else h ! a)"
  by (cases "c < length h") (auto simp: nth_list_update list_update_beyond)

lemma remove_from_children_spec:
  assumes "distinct ps" and "\<forall>p \<in> set ps. p < length h \<and> job \<in> set (children (h ! p))"
  shows "\<exists>h'. remove_from_children h job ps = Inr h' \<and> length h' = length h \<and>
           (\<forall>a. h' ! a = (if a \<in> set ps then (h ! a)\<lparr>children := remove1 job (children (h ! a))\<rparr>
                           else h ! a))"
  using assms
proof (induction ps arbitrary: h)
  case Nil
  then show ?case by simp
next
  case (Cons p ps)
  let ?h1 = "h[p := (h ! p)\<lparr>children := remove1 job (children (h ! p))\<rparr>]"
  have p: "p < length h" "job \<in> set (children (h ! p))" "p \<notin> set ps" "distinct ps"
    using Cons.prems by auto
  have pre: "\<forall>q \<in> set ps. q < length ?h1 \<and> job \<in> set (children (?h1 ! q))"
    using Cons.prems p by (auto simp: nth_list_update)
  from Cons.IH [OF p(4) pre] obtain h' where h':
    "remove_from_children ?h1 job ps = Inr h'" "length h' = length ?h1"
    "\<forall>a. h' ! a = (if a \<in> set ps then (?h1 ! a)\<lparr>children := remove1 job (children (?h1 ! a))\<rparr>
                           else ?h1 ! a)"
    by blast
  have "\<forall>a. h' ! a = (if a \<in> set (p # ps) then (h ! a)\<lparr>children := remove1 job (children (h ! a))\<rparr>
                           else h ! a)"
    using h'(3) p by (auto simp: nth_list_update)
  then show ?case using h'(1,2) p by auto
qed

lemma remove_from_parents_spec:
  assumes "distinct cs" and "\<forall>c \<in> set cs. c < length h \<and> job \<in> set (parents (h ! c))"
  shows "\<exists>h'. remove_from_parents h job cs = Inr h' \<and> length h' = length h \<and>
           (\<forall>a. h' ! a = (if a \<in> set cs then (h ! a)\<lparr>parents := remove1 job (parents (h ! a))\<rparr>
                           else h ! a))"
  using assms
proof (induction cs arbitrary: h)
  case Nil
  then show ?case by simp
next
  case (Cons c cs)
  let ?h1 = "h[c := (h ! c)\<lparr>parents := remove1 job (parents (h ! c))\<rparr>]"
  have c: "c < length h" "job \<in> set (parents (h ! c))" "c \<notin> set cs" "distinct cs"
    using Cons.prems by auto
  have pre: "\<forall>q \<in> set cs. q < length ?h1 \<and> job \<in> set (parents (?h1 ! q))"
    using Cons.prems c by (auto simp: nth_list_update)
  from Cons.IH [OF c(4) pre] obtain h' where h':
    "remove_from_parents ?h1 job cs = Inr h'" "length h' = length ?h1"
    "\<forall>a. h' ! a = (if a \<in> set cs then (?h1 ! a)\<lparr>parents := remove1 job (parents (?h1 ! a))\<rparr>
                           else ?h1 ! a)"
    by blast
  have "\<forall>a. h' ! a = (if a \<in> set (c # cs) then (h ! a)\<lparr>parents := remove1 job (parents (h ! a))\<rparr>
                           else h ! a)"
    using h'(3) c by (auto simp: nth_list_update)
  then show ?case using h'(1,2) c by auto
qed

lemma snd_delete:
  assumes "distinct (map fst dag)" and "distinct (map snd dag)" and "map_of dag i = Some job"
  shows "set (map snd (AList.delete i dag)) = set (map snd dag) - {job}"
  using assms
proof (induction dag)
  case Nil
  then show ?case by simp
next
  case (Cons kv dag)
  obtain k v where kv: "kv = (k, v)" by (cases kv)
  show ?case
  proof (cases "k = i")
    case True
    then have "v = job" using Cons.prems kv by simp
    moreover have "i \<notin> fst ` set dag" using Cons.prems kv True by auto
    moreover have "job \<notin> snd ` set dag" using Cons.prems kv \<open>v = job\<close> by auto
    ultimately show ?thesis using kv True by auto
  next
    case False
    then have m: "map_of dag i = Some job" using Cons.prems kv by simp
    then have "job \<in> snd ` set dag" by (metis map_of_SomeD image_eqI snd_conv)
    then have "v \<noteq> job" using Cons.prems kv by auto
    moreover have "set (map snd (AList.delete i dag)) = set (map snd dag) - {job}"
      using Cons.IH Cons.prems m by simp
    ultimately show ?thesis using kv False by auto
  qed
qed

text \<open>Removing one job of a well-formed graph.\<close>

lemma remove_job_spec:
  assumes wf: "well_formed h dag" and job: "map_of dag i = Some job"
  shows "\<exists>h1 h2. remove_from_children h job (parents (h ! job)) = Inr h1 \<and>
           remove_from_parents h1 job (children (h1 ! job)) = Inr h2 \<and>
           length h2 = length h \<and>
           (\<forall>a. job_name (h2 ! a) = job_name (h ! a)) \<and>
           well_formed h2 (AList.delete i dag)"
proof -
  have jn: "job \<in> set (map snd dag)"
    using job by (metis map_of_SomeD image_eqI set_map snd_conv)
  have W: "\<And>a. a \<in> set (map snd dag) \<Longrightarrow>
        a < length h \<and> distinct (parents (h ! a)) \<and> distinct (children (h ! a)) \<and>
        (\<forall>p \<in> set (parents (h ! a)). p \<in> set (map snd dag) \<and> a \<in> set (children (h ! p))) \<and>
        (\<forall>c \<in> set (children (h ! a)). c \<in> set (map snd dag) \<and> a \<in> set (parents (h ! c)))"
    using wf unfolding well_formed_def by blast
  have dk: "distinct (map fst dag)" and dv: "distinct (map snd dag)"
    using wf unfolding well_formed_def by auto
  have pre1: "\<forall>p \<in> set (parents (h ! job)). p < length h \<and> job \<in> set (children (h ! p))"
    using W[OF jn] W by blast
  from remove_from_children_spec [OF _ pre1] W[OF jn]
  obtain h1 where h1: "remove_from_children h job (parents (h ! job)) = Inr h1"
    "length h1 = length h"
    "\<And>a. h1 ! a = (if a \<in> set (parents (h ! job))
                   then (h ! a)\<lparr>children := remove1 job (children (h ! a))\<rparr> else h ! a)"
    by blast
  have par1: "\<And>a. parents (h1 ! a) = parents (h ! a)"
    by (simp add: h1(3))
  have ch1sub: "\<And>a. set (children (h1 ! a)) \<subseteq> set (children (h ! a))"
  proof -
    fix a show "set (children (h1 ! a)) \<subseteq> set (children (h ! a))"
      using set_remove1_subset [of job "children (h ! a)"] by (simp add: h1(3))
  qed
  have d1: "distinct (children (h1 ! job))"
    using W[OF jn] by (simp add: h1(3))
  have pre2: "\<forall>c \<in> set (children (h1 ! job)). c < length h1 \<and> job \<in> set (parents (h1 ! c))"
  proof
    fix c assume "c \<in> set (children (h1 ! job))"
    then have c: "c \<in> set (children (h ! job))" using ch1sub by blast
    then have "c \<in> set (map snd dag)" "job \<in> set (parents (h ! c))" using W[OF jn] by auto
    then show "c < length h1 \<and> job \<in> set (parents (h1 ! c))"
      using W[of c] par1 h1(2) by simp
  qed
  from remove_from_parents_spec [OF d1 pre2]
  obtain h2 where h2: "remove_from_parents h1 job (children (h1 ! job)) = Inr h2"
    "length h2 = length h1"
    "\<And>a. h2 ! a = (if a \<in> set (children (h1 ! job))
                   then (h1 ! a)\<lparr>parents := remove1 job (parents (h1 ! a))\<rparr> else h1 ! a)"
    by blast
  have names: "\<forall>a. job_name (h2 ! a) = job_name (h ! a)"
    by (simp add: h2(3) h1(3))
  have ch2: "\<And>a. a \<in> set (map snd dag) \<Longrightarrow> a \<noteq> job \<Longrightarrow>
               set (children (h2 ! a)) = set (children (h ! a)) - {job} \<and> distinct (children (h2 ! a))"
  proof -
    fix a assume a: "a \<in> set (map snd dag)" "a \<noteq> job"
    have e: "children (h2 ! a) = children (h1 ! a)" by (simp add: h2(3))
    show "set (children (h2 ! a)) = set (children (h ! a)) - {job} \<and> distinct (children (h2 ! a))"
    proof (cases "a \<in> set (parents (h ! job))")
      case True
      then show ?thesis using W[OF a(1)] by (simp add: e h1(3))
    next
      case False
      then have "job \<notin> set (children (h ! a))" using W[OF a(1)] by blast
      then show ?thesis using False W[OF a(1)] by (simp add: e h1(3))
    qed
  qed
  have pa2: "\<And>a. a \<in> set (map snd dag) \<Longrightarrow> a \<noteq> job \<Longrightarrow>
               set (parents (h2 ! a)) = set (parents (h ! a)) - {job} \<and> distinct (parents (h2 ! a))"
  proof -
    fix a assume a: "a \<in> set (map snd dag)" "a \<noteq> job"
    have inj: "a \<in> set (children (h1 ! job)) \<longleftrightarrow> a \<in> set (children (h ! job))"
      using a(2) by (auto simp: h1(3))
    show "set (parents (h2 ! a)) = set (parents (h ! a)) - {job} \<and> distinct (parents (h2 ! a))"
    proof (cases "a \<in> set (children (h ! job))")
      case True
      then show ?thesis using W[OF a(1)] inj by (simp add: h2(3) par1)
    next
      case False
      then have "job \<notin> set (parents (h ! a))" using W[OF a(1)] by blast
      then show ?thesis using False W[OF a(1)] inj by (simp add: h2(3) par1)
    qed
  qed
  have snd_del: "set (map snd (AList.delete i dag)) = set (map snd dag) - {job}"
    using dk dv job by (rule snd_delete)
  have "well_formed h2 (AList.delete i dag)"
    unfolding well_formed_def
  proof (intro conjI ballI)
    show "distinct (map fst (AList.delete i dag))" using dk by (simp add: distinct_delete)
    show "distinct (map snd (AList.delete i dag))"
      using dv by (simp add: AList.delete_eq distinct_map_filter)
  next
    fix a assume "a \<in> set (map snd (AList.delete i dag))"
    then have a: "a \<in> set (map snd dag)" "a \<noteq> job" using snd_del by auto
    show "a < length h2" using W[OF a(1)] h2(2) h1(2) by simp
    show "distinct (parents (h2 ! a))" using pa2[OF a] by simp
    show "distinct (children (h2 ! a))" using ch2[OF a] by simp
  next
    fix a p assume "a \<in> set (map snd (AList.delete i dag))" and p: "p \<in> set (parents (h2 ! a))"
    then have a: "a \<in> set (map snd dag)" "a \<noteq> job" using snd_del by auto
    have pp: "p \<in> set (parents (h ! a))" "p \<noteq> job" using pa2[OF a] p by auto
    then have pn: "p \<in> set (map snd dag)" "a \<in> set (children (h ! p))" using W[OF a(1)] by auto
    show "p \<in> set (map snd (AList.delete i dag))" using pn pp snd_del by simp
    show "a \<in> set (children (h2 ! p))" using ch2[OF pn(1) pp(2)] pn(2) a(2) by simp
  next
    fix a c assume "a \<in> set (map snd (AList.delete i dag))" and c: "c \<in> set (children (h2 ! a))"
    then have a: "a \<in> set (map snd dag)" "a \<noteq> job" using snd_del by auto
    have cc: "c \<in> set (children (h ! a))" "c \<noteq> job" using ch2[OF a] c by auto
    then have cn: "c \<in> set (map snd dag)" "a \<in> set (parents (h ! c))" using W[OF a(1)] by auto
    show "c \<in> set (map snd (AList.delete i dag))" using cn cc snd_del by simp
    show "a \<in> set (parents (h2 ! c))" using pa2[OF cn(1) cc(2)] cn(2) a(2) by simp
  qed
  then show ?thesis using h1(1) h2(1) h2(2) h1(2) names by auto
qed

lemma delete_as_filter: "AList.delete i dag = filter (\<lambda>(k, a). k \<noteq> i) dag"
  by (induction dag) auto

lemma remove_xforms_loop_spec:
  assumes "well_formed h dag" and "distinct ids" and "set ids \<subseteq> fst ` set dag"
  shows "\<exists>h' dag'. remove_xforms_loop h dag xforms ids = Inr (h', dag') \<and>
           well_formed h' dag' \<and> length h' = length h \<and>
           (\<forall>a. job_name (h' ! a) = job_name (h ! a)) \<and>
           dag' = filter (\<lambda>(k, a). k \<notin> set ids \<or> \<not> name_in (job_name (h ! a)) xforms) dag"
  using assms
proof (induction ids arbitrary: h dag)
  case Nil
  then show ?case by simp
next
  case (Cons i ids)
  have dk: "distinct (map fst dag)" using Cons.prems(1) by (simp add: well_formed_def)
  have "i \<in> fst ` set dag" using Cons.prems(3) by simp
  then obtain job where ij: "(i, job) \<in> set dag" by force
  have job: "map_of dag i = Some job" using dk ij by (rule map_of_is_SomeI)
  have uniq: "\<And>a. (i, a) \<in> set dag \<Longrightarrow> a = job"
  proof -
    fix a assume "(i, a) \<in> set dag"
    then have "map_of dag i = Some a" using dk by (simp add: map_of_is_SomeI)
    then show "a = job" using job by simp
  qed
  show ?case
  proof (cases "name_in (job_name (h ! job)) xforms")
    case False
    have pre: "set ids \<subseteq> fst ` set dag" "distinct ids" using Cons.prems by auto
    from Cons.IH [OF Cons.prems(1) pre(2) pre(1)] obtain h' dag' where r:
      "remove_xforms_loop h dag xforms ids = Inr (h', dag')" "well_formed h' dag'"
      "length h' = length h" "\<forall>a. job_name (h' ! a) = job_name (h ! a)"
      "dag' = filter (\<lambda>(k, a). k \<notin> set ids \<or> \<not> name_in (job_name (h ! a)) xforms) dag"
      by blast
    have "filter (\<lambda>(k, a). k \<notin> set ids \<or> \<not> name_in (job_name (h ! a)) xforms) dag =
          filter (\<lambda>(k, a). k \<notin> set (i # ids) \<or> \<not> name_in (job_name (h ! a)) xforms) dag"
    proof (rule filter_cong [OF refl], goal_cases)
      case (1 x)
      obtain k a where ka: "x = (k, a)" by (cases x)
      show ?case using False uniq [of a] 1 ka by auto
    qed
    then show ?thesis using r(1-4) job False by (simp add: r(5))
  next
    case True
    from remove_job_spec [OF Cons.prems(1) job] obtain h1 h2 where s:
      "remove_from_children h job (parents (h ! job)) = Inr h1"
      "remove_from_parents h1 job (children (h1 ! job)) = Inr h2"
      "length h2 = length h" "\<forall>a. job_name (h2 ! a) = job_name (h ! a)"
      "well_formed h2 (AList.delete i dag)"
      by blast
    have pre: "distinct ids" "set ids \<subseteq> fst ` set (AList.delete i dag)"
    proof -
      show "distinct ids" using Cons.prems(2) by simp
      show "set ids \<subseteq> fst ` set (AList.delete i dag)"
      proof
        fix x assume x: "x \<in> set ids"
        then have "x \<noteq> i" using Cons.prems(2) by auto
        moreover obtain b where "(x, b) \<in> set dag" using x Cons.prems(3) by auto
        ultimately have "(x, b) \<in> set (AList.delete i dag)" by (simp add: delete_as_filter)
        then show "x \<in> fst ` set (AList.delete i dag)" by force
      qed
    qed
    from Cons.IH [OF s(5) pre] obtain h' dag' where r:
      "remove_xforms_loop h2 (AList.delete i dag) xforms ids = Inr (h', dag')"
      "well_formed h' dag'" "length h' = length h2"
      "\<forall>a. job_name (h' ! a) = job_name (h2 ! a)"
      "dag' = filter (\<lambda>(k, a). k \<notin> set ids \<or> \<not> name_in (job_name (h2 ! a)) xforms)
                (AList.delete i dag)"
      by blast
    have "filter (\<lambda>(k, a). k \<notin> set ids \<or> \<not> name_in (job_name (h2 ! a)) xforms)
                (AList.delete i dag) =
          filter (\<lambda>(k, a). k \<notin> set (i # ids) \<or> \<not> name_in (job_name (h ! a)) xforms) dag"
      unfolding delete_as_filter filter_filter
    proof (rule filter_cong [OF refl], goal_cases)
      case (1 x)
      obtain k a where ka: "x = (k, a)" by (cases x)
      show ?case using True uniq [of a] 1 ka s(4) by auto
    qed
    then show ?thesis using r(1-4) s(1-4) job True by (simp add: r(5))
  qed
qed

lemma remove_xforms_spec:
  assumes "well_formed h dag"
  shows "\<exists>h' dag'. remove_xforms h dag xforms = Inr (h', dag') \<and>
           well_formed h' dag' \<and> length h' = length h \<and>
           (\<forall>a. job_name (h' ! a) = job_name (h ! a)) \<and>
           dag' = filter (\<lambda>(k, a). \<not> name_in (job_name (h ! a)) xforms) dag"
proof (cases "xforms = []")
  case True
  then show ?thesis using assms by (simp add: remove_xforms_def name_in_def split: option.splits)
next
  case False
  have d: "distinct (map fst dag)" using assms by (simp add: well_formed_def)
  from remove_xforms_loop_spec [OF assms d, of xforms] obtain h' dag' where r:
    "remove_xforms_loop h dag xforms (map fst dag) = Inr (h', dag')"
    "well_formed h' dag'" "length h' = length h" "\<forall>a. job_name (h' ! a) = job_name (h ! a)"
    "dag' = filter (\<lambda>(k, a). k \<notin> set (map fst dag) \<or> \<not> name_in (job_name (h ! a)) xforms) dag"
    by auto
  have "filter (\<lambda>(k, a). k \<notin> set (map fst dag) \<or> \<not> name_in (job_name (h ! a)) xforms) dag =
        filter (\<lambda>(k, a). \<not> name_in (job_name (h ! a)) xforms) dag"
  proof (rule filter_cong [OF refl], goal_cases)
    case (1 x)
    obtain k a where ka: "x = (k, a)" by (cases x)
    have "k \<in> set (map fst dag)" using 1 ka by force
    then show ?case using ka by simp
  qed
  then show ?thesis using r(1-4) False by (simp add: remove_xforms_def r(5))
qed

text \<open>
  C5: on a well-formed graph \<open>remove_xforms\<close> returns without an exception, the jobs it
  removes from the dictionary are those whose name is in the exclusion list, and no job
  that stays in the dictionary keeps a removed job in its \<open>parents\<close> or \<open>children\<close>.
\<close>

theorem remove_xforms_no_references:
  assumes "well_formed h dag"
  shows "\<exists>h' dag'. remove_xforms h dag xforms = Inr (h', dag') \<and>
           nodes dag' = {a \<in> nodes dag. \<not> name_in (job_name (h ! a)) xforms} \<and>
           (\<forall>b \<in> nodes dag'. \<forall>r \<in> nodes dag - nodes dag'.
              r \<notin> set (parents (h' ! b)) \<and> r \<notin> set (children (h' ! b)))"
proof -
  from remove_xforms_spec [OF assms, of xforms] obtain h' dag' where r:
    "remove_xforms h dag xforms = Inr (h', dag')" "well_formed h' dag'"
    "dag' = filter (\<lambda>(k, a). \<not> name_in (job_name (h ! a)) xforms) dag"
    by blast
  have n: "nodes dag' = {a \<in> nodes dag. \<not> name_in (job_name (h ! a)) xforms}"
    unfolding r(3) nodes_def by force
  have "\<forall>b \<in> nodes dag'. set (parents (h' ! b)) \<subseteq> nodes dag' \<and> set (children (h' ! b)) \<subseteq> nodes dag'"
    using r(2) unfolding well_formed_def nodes_def by blast
  then have "\<forall>b \<in> nodes dag'. \<forall>r \<in> nodes dag - nodes dag'.
              r \<notin> set (parents (h' ! b)) \<and> r \<notin> set (children (h' ! b))"
    by blast
  with r(1) n show ?thesis by blast
qed

theorem remove_xforms_no_references_witness:
  "well_formed chain_heap chain_dag \<and>
   (\<exists>h' dag'. remove_xforms chain_heap chain_dag [''B''] = Inr (h', dag') \<and>
           nodes dag' = {a \<in> nodes chain_dag. \<not> name_in (job_name (chain_heap ! a)) [''B'']} \<and>
           (\<forall>b \<in> nodes dag'. \<forall>r \<in> nodes chain_dag - nodes dag'.
              r \<notin> set (parents (h' ! b)) \<and> r \<notin> set (children (h' ! b))))"
proof -
  have w: "well_formed chain_heap chain_dag" by code_simp
  show ?thesis using w remove_xforms_no_references [OF w, of "[''B'']"] by simp
qed

text \<open>
  C6: filtering \<open>B\<close> out of the chain \<open>A \<rightarrow> B \<rightarrow> C\<close> leaves the jobs \<open>A\<close> and \<open>C\<close> in the
  dictionary, both without parents and without children, and no edge.
\<close>

theorem remove_xforms_chain:
  "remove_xforms chain_heap chain_dag [''B''] =
     Inr ([mk_job ''A'' 0 [] [], mk_job ''B'' 0 [0] [2], mk_job ''C'' 0 [] []],
          [(''A'', 0), (''C'', 2)]) \<and>
   edge_list [mk_job ''A'' 0 [] [], mk_job ''B'' 0 [0] [2], mk_job ''C'' 0 [] []]
     [(''A'', 0), (''C'', 2)] = []"
  by code_simp

section \<open>The first loop of simplify\<close>

lemma edges_iff: "(p, c) \<in> edges h dag \<longleftrightarrow> p \<in> nodes dag \<and> c \<in> set (children (h ! p))"
  by (auto simp: edges_def edge_list_def nodes_def)

lemma edges_graph: "edges h dag = graph h (nodes dag)"
  by (auto simp: edges_iff graph_def)

lemma finite_graph: "finite V \<Longrightarrow> finite (graph h V)"
proof -
  assume "finite V"
  then have "finite (\<Union>p \<in> V. {p} \<times> set (children (h ! p)))" by blast
  moreover have "graph h V = (\<Union>p \<in> V. {p} \<times> set (children (h ! p)))"
    by (auto simp: graph_def)
  ultimately show ?thesis by simp
qed

lemma same_links_refl: "same_links h h"
  by (simp add: same_links_def)

lemma same_links_trans: "same_links h0 h1 \<Longrightarrow> same_links h1 h2 \<Longrightarrow> same_links h0 h2"
  by (simp add: same_links_def)

lemma label_children_spec:
  assumes "n \<notin> set cs" and "\<forall>c \<in> set cs. c < length h"
  shows "\<exists>h'. label_children h n cs fifo = (h', rev cs @ fifo) \<and> length h' = length h \<and>
           (\<forall>a. h' ! a = (if a \<in> set cs
                           then (h ! a)\<lparr>level := max (level (h ! a)) (level (h ! n) + 1)\<rparr>
                           else h ! a))"
  using assms
proof (induction cs arbitrary: h fifo)
  case Nil
  then show ?case by simp
next
  case (Cons c cs)
  let ?h1 = "h[c := (h ! c)\<lparr>level := max (level (h ! c)) (level (h ! n) + 1)\<rparr>]"
  have c: "c < length h" "c \<noteq> n" "n \<notin> set cs" using Cons.prems by auto
  have pre: "\<forall>x \<in> set cs. x < length ?h1" using Cons.prems by simp
  from Cons.IH [OF c(3) pre, of "c # fifo"] obtain h' where h':
    "label_children ?h1 n cs (c # fifo) = (h', rev cs @ c # fifo)" "length h' = length ?h1"
    "\<forall>a. h' ! a = (if a \<in> set cs
                    then (?h1 ! a)\<lparr>level := max (level (?h1 ! a)) (level (?h1 ! n) + 1)\<rparr>
                    else ?h1 ! a)"
    by blast
  have n1: "?h1 ! n = h ! n" using c by simp
  have "\<forall>a. h' ! a = (if a \<in> set (c # cs)
                    then (h ! a)\<lparr>level := max (level (h ! a)) (level (h ! n) + 1)\<rparr>
                    else h ! a)"
  proof
    fix a
    show "h' ! a = (if a \<in> set (c # cs)
                    then (h ! a)\<lparr>level := max (level (h ! a)) (level (h ! n) + 1)\<rparr>
                    else h ! a)"
      using h'(3) [rule_format, of a] c(1) unfolding n1
      by (cases "a = c") (simp_all add: nth_list_update)
  qed
  then show ?case using h'(1,2) by simp
qed

lemma label_levels_step:
  assumes inv: "level_inv h0 V r h (n # rest)"
    and bound: "\<forall>a \<in> V. a < length h0"
    and closed: "\<forall>p \<in> V. set (children (h0 ! p)) \<subseteq> V - {r}"
    and irrefl: "\<forall>p \<in> V. p \<notin> set (children (h0 ! p))"
  shows "\<exists>h'. label_children h n (children (h ! n)) rest = (h', rev (children (h ! n)) @ rest) \<and>
           level_inv h0 V r h' (rev (children (h ! n)) @ rest)"
proof -
  let ?cs = "children (h ! n)"
  let ?G = "graph h0 V"
  have links: "same_links h0 h" using inv unfolding level_inv_def by blast
  have len: "length h = length h0" and ch: "\<And>a. children (h ! a) = children (h0 ! a)"
    using links by (simp_all add: same_links_def)
  have nV: "n \<in> V" and restV: "set rest \<subseteq> V" using inv unfolding level_inv_def by auto
  have r0: "level (h ! r) = 0" using inv unfolding level_inv_def by blast
  have nonneg: "\<And>a. a \<in> V \<Longrightarrow> 0 \<le> level (h ! a)" using inv unfolding level_inv_def by blast
  have vis: "\<And>m. m \<in> set (n # rest) \<Longrightarrow> visited h r m" using inv unfolding level_inv_def by blast
  have path: "\<And>a. a \<in> V \<Longrightarrow> visited h r a \<Longrightarrow> \<exists>k. (r, a) \<in> ?G ^^ k \<and> level (h ! a) = int k"
    using inv unfolding level_inv_def by blast
  have kept: "\<And>p. p \<in> V \<Longrightarrow> visited h r p \<Longrightarrow>
        p \<in> set (n # rest) \<or> (\<forall>c \<in> set (children (h ! p)). level (h ! p) + 1 \<le> level (h ! c))"
    using inv unfolding level_inv_def by blast
  have csV: "set ?cs \<subseteq> V - {r}" using closed nV ch by simp
  have n_cs: "n \<notin> set ?cs" using irrefl nV ch by simp
  have cs_len: "\<forall>c \<in> set ?cs. c < length h" using csV bound len by auto
  from label_children_spec [OF n_cs cs_len, of rest] obtain h' where h':
    "label_children h n ?cs rest = (h', rev ?cs @ rest)" "length h' = length h"
    "\<And>a. h' ! a = (if a \<in> set ?cs
                    then (h ! a)\<lparr>level := max (level (h ! a)) (level (h ! n) + 1)\<rparr>
                    else h ! a)"
    by blast
  have lv: "\<And>a. level (h' ! a) =
      (if a \<in> set ?cs then max (level (h ! a)) (level (h ! n) + 1) else level (h ! a))"
    by (simp add: h'(3))
  have links': "same_links h h'"
    by (simp add: same_links_def h'(2) h'(3))
  have ch': "\<And>a. children (h' ! a) = children (h ! a)" by (simp add: h'(3))
  have mono: "\<And>a. level (h ! a) \<le> level (h' ! a)" by (simp add: lv)
  have n_lv: "0 \<le> level (h ! n)" using nonneg nV by simp
  have vis_mono: "\<And>a. a \<in> V \<Longrightarrow> visited h r a \<Longrightarrow> visited h' r a"
  proof -
    fix a assume a: "a \<in> V" "visited h r a"
    show "visited h' r a"
      using a(2) nonneg [OF a(1)] mono [of a] by (auto simp: visited_def)
  qed
  have cs_vis: "\<And>c. c \<in> set ?cs \<Longrightarrow> visited h' r c"
    using n_lv by (auto simp: visited_def lv)
  have i1: "same_links h0 h'" using links links' by (rule same_links_trans)
  have i2: "set (rev ?cs @ rest) \<subseteq> V" using csV restV by auto
  have i3: "level (h' ! r) = 0" using csV r0 by (auto simp: lv)
  have i4: "\<forall>a \<in> V. 0 \<le> level (h' ! a)" using nonneg mono by (meson order_trans)
  have i5: "\<forall>m \<in> set (rev ?cs @ rest). visited h' r m"
    using cs_vis vis vis_mono restV by auto
  have i6: "\<forall>a \<in> V. visited h' r a \<longrightarrow> (\<exists>k. (r, a) \<in> ?G ^^ k \<and> level (h' ! a) = int k)"
  proof (intro ballI impI)
    fix a assume a: "a \<in> V" "visited h' r a"
    show "\<exists>k. (r, a) \<in> ?G ^^ k \<and> level (h' ! a) = int k"
    proof (cases "a \<in> set ?cs \<and> level (h ! a) < level (h ! n) + 1")
      case True
      then have e: "level (h' ! a) = level (h ! n) + 1" by (simp add: lv)
      from path [OF nV vis [of n]] obtain k where k: "(r, n) \<in> ?G ^^ k" "level (h ! n) = int k"
        by auto
      have "(n, a) \<in> ?G" using True nV ch by (simp add: graph_def)
      then have "(r, a) \<in> ?G ^^ Suc k" using k(1) by auto
      then show ?thesis using e k(2) by (intro exI [of _ "Suc k"]) simp
    next
      case False
      then have e: "level (h' ! a) = level (h ! a)" by (auto simp: lv)
      have "visited h r a"
      proof (cases "a \<in> set ?cs")
        case True
        then have "level (h ! n) + 1 \<le> level (h ! a)" using False by simp
        then show ?thesis using n_lv by (auto simp: visited_def)
      next
        case False
        then show ?thesis using a(2) by (simp add: visited_def lv)
      qed
      from path [OF a(1) this] show ?thesis using e by simp
    qed
  qed
  have i7: "\<forall>p \<in> V. visited h' r p \<longrightarrow>
        p \<in> set (rev ?cs @ rest) \<or> (\<forall>c \<in> set (children (h' ! p)). level (h' ! p) + 1 \<le> level (h' ! c))"
  proof (intro ballI impI)
    fix p assume p: "p \<in> V" "visited h' r p"
    show "p \<in> set (rev ?cs @ rest) \<or> (\<forall>c \<in> set (children (h' ! p)). level (h' ! p) + 1 \<le> level (h' ! c))"
    proof (cases "p \<in> set (rev ?cs @ rest)")
      case True
      then show ?thesis by simp
    next
      case False
      then have pcs: "p \<notin> set ?cs" and prest: "p \<notin> set rest" by auto
      have e: "level (h' ! p) = level (h ! p)" using pcs by (simp add: lv)
      have vp: "visited h r p" using p(2) e by (simp add: visited_def)
      have "\<forall>c \<in> set (children (h' ! p)). level (h' ! p) + 1 \<le> level (h' ! c)"
      proof (cases "p = n")
        case True
        have en: "level (h' ! n) = level (h ! n)" using n_cs by (simp add: lv)
        have "\<And>c. c \<in> set ?cs \<Longrightarrow> level (h ! n) + 1 \<le> level (h' ! c)" by (simp add: lv)
        then show ?thesis unfolding True ch' en by blast
      next
        case False
        then have "\<forall>c \<in> set (children (h ! p)). level (h ! p) + 1 \<le> level (h ! c)"
          using kept [OF p(1) vp] prest by simp
        then show ?thesis unfolding ch' e using mono by (meson order_trans)
      qed
      then show ?thesis by simp
    qed
  qed
  have "level_inv h0 V r h' (rev ?cs @ rest)"
    unfolding level_inv_def using i1 i2 i3 i4 i5 i6 i7 by blast
  then show ?thesis using h'(1) by blast
qed

lemma push_children_less:
  assumes "\<forall>c \<in> set cs. (c, n) \<in> R"
  shows "(mset (rev cs @ rest), mset (n # rest)) \<in> mult R"
proof -
  have "(mset rest + mset cs, mset rest + {#n#}) \<in> mult R"
    using assms by (intro one_step_implies_mult) auto
  then show ?thesis by (simp add: union_commute)
qed

lemma label_levels_total:
  assumes wfG: "wf ((graph h0 V)\<inverse>)"
    and bound: "\<forall>a \<in> V. a < length h0"
    and closed: "\<forall>p \<in> V. set (children (h0 ! p)) \<subseteq> V - {r}"
  shows "level_inv h0 V r h fifo \<Longrightarrow>
           \<exists>h'. label_levels h fifo = Some h' \<and> level_inv h0 V r h' []"
  using wf_mult [OF wfG]
proof (induction "mset fifo" arbitrary: h fifo rule: wf_induct_rule)
  case less
  have irrefl: "\<forall>p \<in> V. p \<notin> set (children (h0 ! p))"
  proof
    fix p assume "p \<in> V"
    have "(p, p) \<notin> (graph h0 V)\<inverse>" using wfG by (rule wf_not_refl)
    then show "p \<notin> set (children (h0 ! p))" using \<open>p \<in> V\<close> by (simp add: graph_def)
  qed
  show ?case
  proof (cases fifo)
    case Nil
    then show ?thesis using less.prems by (subst label_levels.simps) simp
  next
    case (Cons n rest)
    let ?cs = "children (h ! n)"
    from label_levels_step [OF less.prems [unfolded Cons] bound closed irrefl]
    obtain h1 where h1: "label_children h n ?cs rest = (h1, rev ?cs @ rest)"
      "level_inv h0 V r h1 (rev ?cs @ rest)"
      by blast
    have nV: "n \<in> V" using less.prems Cons unfolding level_inv_def by auto
    have "children (h ! n) = children (h0 ! n)"
      using less.prems unfolding level_inv_def same_links_def by blast
    then have "\<forall>c \<in> set ?cs. (c, n) \<in> (graph h0 V)\<inverse>"
      using nV by (simp add: graph_def)
    then have "(mset (rev ?cs @ rest), mset fifo) \<in> mult ((graph h0 V)\<inverse>)"
      unfolding Cons by (rule push_children_less)
    from less.hyps [OF this h1(2)] obtain h' where
      "label_levels h1 (rev ?cs @ rest) = Some h'" "level_inv h0 V r h' []"
      by blast
    then show ?thesis using h1(1) Cons by (subst label_levels.simps) simp
  qed
qed

text \<open>What the invariant says when the stack is empty.\<close>

lemma level_inv_final:
  assumes inv: "level_inv h0 V r h []" and rV: "r \<in> V"
    and closed: "\<forall>p \<in> V. set (children (h0 ! p)) \<subseteq> V - {r}"
  shows "(r, a) \<in> graph h0 V ^^ k \<Longrightarrow> a \<in> V \<and> visited h r a \<and> int k \<le> level (h ! a)"
proof (induction k arbitrary: a)
  case 0
  then show ?case using inv rV unfolding level_inv_def by (simp add: visited_def)
next
  case (Suc k)
  then obtain u where u: "(r, u) \<in> graph h0 V ^^ k" "(u, a) \<in> graph h0 V" by auto
  from Suc.IH [OF u(1)] have uf: "u \<in> V" "visited h r u" "int k \<le> level (h ! u)" by auto
  have ch: "children (h ! u) = children (h0 ! u)"
    using inv unfolding level_inv_def same_links_def by blast
  have a_ch: "a \<in> set (children (h ! u))" using u(2) ch by (simp add: graph_def)
  have "\<forall>c \<in> set (children (h ! u)). level (h ! u) + 1 \<le> level (h ! c)"
    using inv uf(1,2) unfolding level_inv_def by auto
  then have le: "level (h ! u) + 1 \<le> level (h ! a)" using a_ch by blast
  have "a \<in> V" using closed uf(1) a_ch ch by auto
  then show ?case using le uf(3) by (auto simp: visited_def)
qed

section \<open>The graph with the surrogate root\<close>

lemma well_formedD:
  assumes "well_formed h dag" and "a \<in> nodes dag"
  shows "a < length h" and "distinct (parents (h ! a))" and "distinct (children (h ! a))"
    and "\<And>p. p \<in> set (parents (h ! a)) \<Longrightarrow> p \<in> nodes dag"
    and "\<And>c. c \<in> set (children (h ! a)) \<Longrightarrow> c \<in> nodes dag"
    and "\<And>p. p \<in> set (parents (h ! a)) \<Longrightarrow> a \<in> set (children (h ! p))"
    and "\<And>c. c \<in> set (children (h ! a)) \<Longrightarrow> a \<in> set (parents (h ! c))"
  using assms unfolding well_formed_def nodes_def by blast+

lemma set_find_roots: "set (find_roots h dag) = {a \<in> nodes dag. parents (h ! a) = []}"
  by (auto simp: find_roots_def nodes_def)

lemma finite_nodes: "finite (nodes dag)"
  by (simp add: nodes_def)

lemma wf_edges:
  assumes "acyclic_dag h dag"
  shows "wf (edges h dag)" and "wf ((edges h dag)\<inverse>)"
proof -
  have f: "finite (edges h dag)" by (simp add: edges_def)
  have a: "acyclic (edges h dag)" using assms by (simp add: acyclic_dag_def)
  show "wf (edges h dag)" using f a by (rule finite_acyclic_wf)
  show "wf ((edges h dag)\<inverse>)" using f a by (rule finite_acyclic_wf_converse)
qed

text \<open>Every job is at the end of a path that starts at a job without parents.\<close>

lemma reach_from_root:
  assumes wf: "well_formed h dag" and ac: "acyclic_dag h dag"
  shows "v \<in> nodes dag \<Longrightarrow>
           \<exists>\<rho> k. \<rho> \<in> nodes dag \<and> parents (h ! \<rho>) = [] \<and> (\<rho>, v) \<in> edges h dag ^^ k"
proof (induction v rule: wf_induct_rule [OF wf_edges(1) [OF ac]])
  case (1 v)
  show ?case
  proof (cases "parents (h ! v)")
    case Nil
    then have "(v, v) \<in> edges h dag ^^ 0" by simp
    then show ?thesis using Nil "1.prems" by blast
  next
    case (Cons p ps)
    then have p: "p \<in> set (parents (h ! v))" by simp
    have pn: "p \<in> nodes dag" using well_formedD(4) [OF wf "1.prems" p] .
    have e: "(p, v) \<in> edges h dag"
      using well_formedD(6) [OF wf "1.prems" p] pn by (simp add: edges_iff)
    from "1.IH" [OF e pn] obtain \<rho> k where
      "\<rho> \<in> nodes dag" "parents (h ! \<rho>) = []" "(\<rho>, p) \<in> edges h dag ^^ k"
      by blast
    moreover then have "(\<rho>, v) \<in> edges h dag ^^ Suc k" using e by auto
    ultimately show ?thesis by blast
  qed
qed

lemma graph_root:
  assumes wf: "well_formed h dag"
  defines "h0 \<equiv> h @ [surrogate_root (find_roots h dag)]"
  shows "graph h0 (insert (length h) (nodes dag)) =
           edges h dag \<union> {length h} \<times> {a \<in> nodes dag. parents (h ! a) = []}"
proof -
  have n: "\<And>a. a \<in> nodes dag \<Longrightarrow> h0 ! a = h ! a"
    using well_formedD(1) [OF wf] by (simp add: h0_def nth_append)
  have r: "children (h0 ! length h) = find_roots h dag"
    by (simp add: h0_def surrogate_root_def)
  have rn: "length h \<notin> nodes dag" using well_formedD(1) [OF wf] by blast
  show ?thesis
    using n rn by (auto simp: graph_def edges_iff r set_find_roots)
qed

lemma from_node_in_edges:
  assumes wf: "well_formed h dag" and G: "G = edges h dag \<union> {r} \<times> S" and r: "r \<notin> nodes dag"
  shows "x \<in> nodes dag \<Longrightarrow> (x, a) \<in> G ^^ k \<Longrightarrow> (x, a) \<in> edges h dag ^^ k \<and> a \<in> nodes dag"
proof (induction k arbitrary: a)
  case 0
  then show ?case by simp
next
  case (Suc k)
  then obtain u where u: "(x, u) \<in> G ^^ k" "(u, a) \<in> G" by auto
  from Suc.IH [OF Suc.prems(1) u(1)] have iu: "(x, u) \<in> edges h dag ^^ k" "u \<in> nodes dag"
    by auto
  have e: "(u, a) \<in> edges h dag" using u(2) iu(2) r unfolding G by auto
  then have "a \<in> nodes dag" using well_formedD(5) [OF wf iu(2)] by (simp add: edges_iff)
  then show ?case using iu(1) e by auto
qed

lemma relpow_mono_set:
  fixes R S :: "('a \<times> 'a) set"
  shows "R \<subseteq> S \<Longrightarrow> (x, y) \<in> R ^^ n \<Longrightarrow> (x, y) \<in> S ^^ n"
  by (induction n arbitrary: y) auto

lemma path_from_root_iff:
  assumes wf: "well_formed h dag" and G: "G = edges h dag \<union> {r} \<times> S" and r: "r \<notin> nodes dag"
    and S: "S \<subseteq> nodes dag"
  shows "(r, a) \<in> G ^^ Suc k \<longleftrightarrow> (\<exists>\<rho> \<in> S. (\<rho>, a) \<in> edges h dag ^^ k)"
proof
  assume "(r, a) \<in> G ^^ Suc k"
  then obtain y where y: "(r, y) \<in> G" "(y, a) \<in> G ^^ k" by (meson relpow_Suc_D2)
  have "(r, y) \<notin> edges h dag" using r by (simp add: edges_iff)
  then have yS: "y \<in> S" using y(1) unfolding G by auto
  then have "y \<in> nodes dag" using S by blast
  from from_node_in_edges [OF wf G r this y(2)] yS
  show "\<exists>\<rho> \<in> S. (\<rho>, a) \<in> edges h dag ^^ k" by blast
next
  assume "\<exists>\<rho> \<in> S. (\<rho>, a) \<in> edges h dag ^^ k"
  then obtain \<rho> where \<rho>: "\<rho> \<in> S" "(\<rho>, a) \<in> edges h dag ^^ k" by blast
  have "edges h dag \<subseteq> G" unfolding G by blast
  then have "(\<rho>, a) \<in> G ^^ k" using \<rho>(2) by (rule relpow_mono_set)
  moreover have "(r, \<rho>) \<in> G" using \<rho>(1) unfolding G by blast
  ultimately show "(r, a) \<in> G ^^ Suc k" by (meson relpow_Suc_I2)
qed

lemma wf_graph_root:
  assumes wf: "well_formed h dag" and ac: "acyclic_dag h dag"
    and G: "G = edges h dag \<union> {r} \<times> S" and r: "r \<notin> nodes dag" and S: "S \<subseteq> nodes dag"
  shows "wf (G\<inverse>)"
proof -
  have 1: "wf ((edges h dag)\<inverse>)" using ac by (rule wf_edges(2))
  have 2: "wf (S \<times> {r})"
  proof (rule wfI_min)
    fix x and Q :: "nat set"
    assume x: "x \<in> Q"
    show "\<exists>z \<in> Q. \<forall>y. (y, z) \<in> S \<times> {r} \<longrightarrow> y \<notin> Q"
    proof (cases "\<exists>z \<in> Q. z \<noteq> r")
      case True
      then show ?thesis by blast
    next
      case False
      have "\<forall>y. (y, x) \<in> S \<times> {r} \<longrightarrow> y \<notin> Q"
      proof (intro allI impI)
        fix y assume "(y, x) \<in> S \<times> {r}"
        then have "y \<in> nodes dag" using S by auto
        then have "y \<noteq> r" using r by auto
        then show "y \<notin> Q" using False by auto
      qed
      then show ?thesis using x by blast
    qed
  qed
  have "Range (edges h dag) \<subseteq> nodes dag"
    using well_formedD(5) [OF wf] by (auto simp: edges_iff)
  then have 3: "Domain ((edges h dag)\<inverse>) \<inter> Range (S \<times> {r}) = {}"
    using r by auto
  have "G\<inverse> = (edges h dag)\<inverse> \<union> S \<times> {r}" unfolding G by blast
  then show ?thesis using wf_Un [OF 1 2 3] by simp
qed

section \<open>The levels after the first loop\<close>

lemma assign_levels_spec:
  assumes wf: "well_formed h dag" and ac: "acyclic_dag h dag" and un: "unlabelled h dag"
  shows "\<exists>h1. assign_levels h dag = Some h1 \<and>
           same_links (h @ [surrogate_root (find_roots h dag)]) h1 \<and>
           level (h1 ! length h) = 0 \<and>
           (\<forall>v \<in> nodes dag.
              (\<exists>\<rho> k. \<rho> \<in> nodes dag \<and> parents (h ! \<rho>) = [] \<and> (\<rho>, v) \<in> edges h dag ^^ k \<and>
                     level (h1 ! v) = int k + 1) \<and>
              (\<forall>\<rho> k. \<rho> \<in> nodes dag \<and> parents (h ! \<rho>) = [] \<and> (\<rho>, v) \<in> edges h dag ^^ k \<longrightarrow>
                     int k + 1 \<le> level (h1 ! v))) \<and>
           (\<forall>p \<in> nodes dag. \<forall>c \<in> set (children (h ! p)). level (h1 ! p) + 1 \<le> level (h1 ! c)) \<and>
           (\<forall>v \<in> nodes dag. \<exists>p \<in> insert (length h) (nodes dag).
              v \<in> set (children (h1 ! p)) \<and> level (h1 ! v) = level (h1 ! p) + 1)"
proof -
  let ?r = "length h"
  let ?S = "{a \<in> nodes dag. parents (h ! a) = []}"
  let ?h0 = "h @ [surrogate_root (find_roots h dag)]"
  let ?V = "insert ?r (nodes dag)"
  let ?G = "graph ?h0 ?V"
  let ?E = "edges h dag"
  have G: "?G = ?E \<union> {?r} \<times> ?S" using wf by (rule graph_root)
  have rn: "?r \<notin> nodes dag" using well_formedD(1) [OF wf] by blast
  have SN: "?S \<subseteq> nodes dag" by blast
  have h0n: "\<And>a. a \<in> nodes dag \<Longrightarrow> ?h0 ! a = h ! a"
    using well_formedD(1) [OF wf] by (simp add: nth_append)
  have h0r: "?h0 ! ?r = surrogate_root (find_roots h dag)" by simp
  have wfG: "wf (?G\<inverse>)" using wf ac G rn SN by (rule wf_graph_root)
  have bound: "\<forall>a \<in> ?V. a < length ?h0" using well_formedD(1) [OF wf] by (auto simp: less_Suc_eq)
  have closed: "\<forall>p \<in> ?V. set (children (?h0 ! p)) \<subseteq> ?V - {?r}"
  proof
    fix p assume p: "p \<in> ?V"
    show "set (children (?h0 ! p)) \<subseteq> ?V - {?r}"
    proof (cases "p = ?r")
      case True
      then show ?thesis using rn by (auto simp: surrogate_root_def set_find_roots)
    next
      case False
      then have pn: "p \<in> nodes dag" using p by simp
      show ?thesis using well_formedD(5) [OF wf pn] rn by (auto simp: h0n [OF pn])
    qed
  qed
  have lv0: "\<And>a. a \<in> ?V \<Longrightarrow> level (?h0 ! a) = 0"
  proof -
    fix a assume "a \<in> ?V"
    then show "level (?h0 ! a) = 0"
      using un h0n unfolding unlabelled_def nodes_def
      by (cases "a = ?r") (auto simp: surrogate_root_def)
  qed
  have init: "level_inv ?h0 ?V ?r ?h0 [?r]"
    unfolding level_inv_def
  proof (intro conjI ballI impI)
    show "same_links ?h0 ?h0" by (rule same_links_refl)
    show "set [?r] \<subseteq> ?V" by simp
    show "level (?h0 ! ?r) = 0" by (simp add: surrogate_root_def)
  next
    fix a assume "a \<in> ?V" then show "0 \<le> level (?h0 ! a)" using lv0 by simp
  next
    fix n assume "n \<in> set [?r]" then show "visited ?h0 ?r n" by (simp add: visited_def)
  next
    fix a assume "a \<in> ?V" "visited ?h0 ?r a"
    then have "a = ?r" using lv0 [of a] by (simp add: visited_def)
    moreover have "(?r, ?r) \<in> ?G ^^ 0" by simp
    ultimately show "\<exists>k. (?r, a) \<in> ?G ^^ k \<and> level (?h0 ! a) = int k"
      using lv0 [of ?r] by (intro exI [of _ 0]) simp
  next
    fix p assume "p \<in> ?V" "visited ?h0 ?r p"
    then have "p = ?r" using lv0 [of p] by (simp add: visited_def)
    then show "p \<in> set [?r] \<or>
        (\<forall>c \<in> set (children (?h0 ! p)). level (?h0 ! p) + 1 \<le> level (?h0 ! c))"
      by simp
  qed
  from label_levels_total [OF wfG bound closed init] obtain h1 where h1:
    "label_levels ?h0 [?r] = Some h1" "level_inv ?h0 ?V ?r h1 []"
    by blast
  have run: "assign_levels h dag = Some h1"
    using h1(1) by (simp add: assign_levels_def Let_def)
  have links: "same_links ?h0 h1" using h1(2) unfolding level_inv_def by blast
  have ch1: "\<And>a. children (h1 ! a) = children (?h0 ! a)"
    using links by (simp add: same_links_def)
  have r0: "level (h1 ! ?r) = 0" using h1(2) unfolding level_inv_def by blast
  have rV: "?r \<in> ?V" by simp
  note fin = level_inv_final [OF h1(2) rV closed]
  have path: "\<And>a. a \<in> ?V \<Longrightarrow> visited h1 ?r a \<Longrightarrow>
                \<exists>k. (?r, a) \<in> ?G ^^ k \<and> level (h1 ! a) = int k"
    using h1(2) unfolding level_inv_def by blast
  have kept: "\<And>p. p \<in> ?V \<Longrightarrow> visited h1 ?r p \<Longrightarrow>
                \<forall>c \<in> set (children (h1 ! p)). level (h1 ! p) + 1 \<le> level (h1 ! c)"
    using h1(2) unfolding level_inv_def by auto
  have iff: "\<And>a k. (?r, a) \<in> ?G ^^ Suc k \<longleftrightarrow> (\<exists>\<rho> \<in> ?S. (\<rho>, a) \<in> ?E ^^ k)"
    using wf G rn SN by (rule path_from_root_iff)
  have vis: "\<And>v. v \<in> nodes dag \<Longrightarrow> visited h1 ?r v"
  proof -
    fix v assume v: "v \<in> nodes dag"
    from reach_from_root [OF wf ac v] obtain \<rho> k where
      "\<rho> \<in> ?S" "(\<rho>, v) \<in> ?E ^^ k" by blast
    then have "(?r, v) \<in> ?G ^^ Suc k" using iff by blast
    then show "visited h1 ?r v" using fin by blast
  qed
  have long: "\<forall>v \<in> nodes dag.
              (\<exists>\<rho> k. \<rho> \<in> nodes dag \<and> parents (h ! \<rho>) = [] \<and> (\<rho>, v) \<in> ?E ^^ k \<and>
                     level (h1 ! v) = int k + 1) \<and>
              (\<forall>\<rho> k. \<rho> \<in> nodes dag \<and> parents (h ! \<rho>) = [] \<and> (\<rho>, v) \<in> ?E ^^ k \<longrightarrow>
                     int k + 1 \<le> level (h1 ! v))"
  proof (intro ballI conjI allI impI)
    fix v assume v: "v \<in> nodes dag"
    from path [OF _ vis [OF v]] v obtain k where k: "(?r, v) \<in> ?G ^^ k" "level (h1 ! v) = int k"
      by auto
    have "k \<noteq> 0" using k(1) v rn by (cases k) auto
    then obtain j where j: "k = Suc j" by (cases k) auto
    then obtain \<rho> where "\<rho> \<in> ?S" "(\<rho>, v) \<in> ?E ^^ j" using k(1) iff by blast
    then show "\<exists>\<rho> k. \<rho> \<in> nodes dag \<and> parents (h ! \<rho>) = [] \<and> (\<rho>, v) \<in> ?E ^^ k \<and>
                     level (h1 ! v) = int k + 1"
      using k(2) j by auto
  next
    fix v \<rho> k assume "v \<in> nodes dag"
      and "\<rho> \<in> nodes dag \<and> parents (h ! \<rho>) = [] \<and> (\<rho>, v) \<in> ?E ^^ k"
    then have "(?r, v) \<in> ?G ^^ Suc k" using iff by blast
    then have "int (Suc k) \<le> level (h1 ! v)" using fin by blast
    then show "int k + 1 \<le> level (h1 ! v)" by simp
  qed
  have mono: "\<forall>p \<in> nodes dag. \<forall>c \<in> set (children (h ! p)). level (h1 ! p) + 1 \<le> level (h1 ! c)"
  proof (intro ballI)
    fix p c assume p: "p \<in> nodes dag" and c: "c \<in> set (children (h ! p))"
    have "c \<in> set (children (h1 ! p))" using c by (simp add: ch1 h0n [OF p])
    then show "level (h1 ! p) + 1 \<le> level (h1 ! c)" using kept [OF _ vis [OF p]] p by simp
  qed
  have tight: "\<forall>v \<in> nodes dag. \<exists>p \<in> ?V.
              v \<in> set (children (h1 ! p)) \<and> level (h1 ! v) = level (h1 ! p) + 1"
  proof
    fix v assume v: "v \<in> nodes dag"
    from path [OF _ vis [OF v]] v obtain k where k: "(?r, v) \<in> ?G ^^ k" "level (h1 ! v) = int k"
      by auto
    have "k \<noteq> 0" using k(1) v rn by (cases k) auto
    then obtain j where j: "k = Suc j" by (cases k) auto
    then obtain u where u: "(?r, u) \<in> ?G ^^ j" "(u, v) \<in> ?G" using k(1) by auto
    from fin [OF u(1)] have uf: "u \<in> ?V" "visited h1 ?r u" "int j \<le> level (h1 ! u)" by auto
    have vc: "v \<in> set (children (h1 ! u))" using u(2) by (simp add: graph_def ch1)
    then have "level (h1 ! u) + 1 \<le> level (h1 ! v)" using kept [OF uf(1,2)] by blast
    then have "level (h1 ! v) = level (h1 ! u) + 1" using uf(3) k(2) j by simp
    then show "\<exists>p \<in> ?V. v \<in> set (children (h1 ! p)) \<and> level (h1 ! v) = level (h1 ! p) + 1"
      using uf(1) vc by blast
  qed
  show ?thesis using run links r0 long mono tight by blast
qed

lemma diamond_acyclic: "acyclic_dag diamond_heap diamond_dag"
proof -
  have e: "edges diamond_heap diamond_dag = {(0, 1), (0, 2), (0, 3), (1, 3), (2, 3)}"
    by (simp add: edges_def edge_list_def diamond_heap_def diamond_dag_def mk_job_def insert_commute)
  have "acyclic (edges diamond_heap diamond_dag)"
    unfolding e by (rule acyclicI_order [where f = "\<lambda>a. 3 - a"]) auto
  then show ?thesis by (simp add: acyclic_dag_def)
qed

text \<open>
  C2, as the code has it. The surrogate root has level 0 and every job without parents
  is its child, so the levels count from 1: on a well-formed acyclic graph whose levels
  are still 0, the first loop ends, and the level of every job is one more than the
  number of edges of the longest path to it from a job without parents (\<open>R ^^ k\<close>
  relates the two ends of a path of \<open>k\<close> edges). Every job without parents has level 1.
\<close>

theorem levels_count_longest_path:
  assumes "well_formed h dag" and "acyclic_dag h dag" and "unlabelled h dag"
  shows "\<exists>h1. assign_levels h dag = Some h1 \<and>
           (\<forall>v \<in> nodes dag.
              (\<exists>\<rho> k. \<rho> \<in> nodes dag \<and> parents (h ! \<rho>) = [] \<and> (\<rho>, v) \<in> edges h dag ^^ k \<and>
                     level (h1 ! v) = int k + 1) \<and>
              (\<forall>\<rho> k. \<rho> \<in> nodes dag \<and> parents (h ! \<rho>) = [] \<and> (\<rho>, v) \<in> edges h dag ^^ k \<longrightarrow>
                     int k + 1 \<le> level (h1 ! v))) \<and>
           (\<forall>\<rho> \<in> nodes dag. parents (h ! \<rho>) = [] \<longrightarrow> level (h1 ! \<rho>) = 1)"
proof -
  from assign_levels_spec [OF assms] obtain h1 where h1: "assign_levels h dag = Some h1"
    and long: "\<forall>v \<in> nodes dag.
              (\<exists>\<rho> k. \<rho> \<in> nodes dag \<and> parents (h ! \<rho>) = [] \<and> (\<rho>, v) \<in> edges h dag ^^ k \<and>
                     level (h1 ! v) = int k + 1) \<and>
              (\<forall>\<rho> k. \<rho> \<in> nodes dag \<and> parents (h ! \<rho>) = [] \<and> (\<rho>, v) \<in> edges h dag ^^ k \<longrightarrow>
                     int k + 1 \<le> level (h1 ! v))"
    by blast
  have "\<forall>\<rho> \<in> nodes dag. parents (h ! \<rho>) = [] \<longrightarrow> level (h1 ! \<rho>) = 1"
  proof (intro ballI impI)
    fix \<rho> assume r: "\<rho> \<in> nodes dag" "parents (h ! \<rho>) = []"
    from long r(1) obtain \<rho>' k where k: "(\<rho>', \<rho>) \<in> edges h dag ^^ k" "level (h1 ! \<rho>) = int k + 1"
      by blast
    have "k = 0"
    proof (cases k)
      case 0
      then show ?thesis .
    next
      case (Suc j)
      then obtain u where "(u, \<rho>) \<in> edges h dag" using k(1) by auto
      then have "u \<in> nodes dag" "\<rho> \<in> set (children (h ! u))" by (simp_all add: edges_iff)
      then have "u \<in> set (parents (h ! \<rho>))" using well_formedD(7) [OF assms(1)] by blast
      then show ?thesis using r(2) by simp
    qed
    then show "level (h1 ! \<rho>) = 1" using k(2) by simp
  qed
  then show ?thesis using h1 long by blast
qed

theorem levels_count_longest_path_witness:
  "well_formed diamond_heap diamond_dag \<and> acyclic_dag diamond_heap diamond_dag \<and>
   unlabelled diamond_heap diamond_dag \<and>
   (\<exists>h1. assign_levels diamond_heap diamond_dag = Some h1 \<and>
           (\<forall>v \<in> nodes diamond_dag.
              (\<exists>\<rho> k. \<rho> \<in> nodes diamond_dag \<and> parents (diamond_heap ! \<rho>) = [] \<and>
                     (\<rho>, v) \<in> edges diamond_heap diamond_dag ^^ k \<and>
                     level (h1 ! v) = int k + 1) \<and>
              (\<forall>\<rho> k. \<rho> \<in> nodes diamond_dag \<and> parents (diamond_heap ! \<rho>) = [] \<and>
                     (\<rho>, v) \<in> edges diamond_heap diamond_dag ^^ k \<longrightarrow>
                     int k + 1 \<le> level (h1 ! v))) \<and>
           (\<forall>\<rho> \<in> nodes diamond_dag. parents (diamond_heap ! \<rho>) = [] \<longrightarrow> level (h1 ! \<rho>) = 1))"
proof -
  have w: "well_formed diamond_heap diamond_dag" by code_simp
  have u: "unlabelled diamond_heap diamond_dag" by code_simp
  show ?thesis
    using w diamond_acyclic u levels_count_longest_path [OF w diamond_acyclic u] by simp
qed

text \<open>
  C2 as stated fails: the only job of a graph with one job is a root, and its level
  after the first pass is 1, not 0.
\<close>

theorem root_level_not_zero:
  "assign_levels single_heap single_dag = Some [mk_job ''A'' 1 [] [], surrogate_root [0]]"
  by code_simp

section \<open>What inv_reachable computes\<close>

lemma scan_parents_found: "b \<in> set ps \<Longrightarrow> fst (scan_parents ps b fifo) = True"
  by (induction ps arbitrary: fifo) auto

lemma scan_parents_not_found: "b \<notin> set ps \<Longrightarrow> scan_parents ps b fifo = (False, rev ps @ fifo)"
  by (induction ps arbitrary: fifo) auto

lemma inv_reachable_loop_spec:
  assumes wfR: "wf (up h V)" and closed: "\<forall>x \<in> V. set (parents (h ! x)) \<subseteq> V"
  shows "set fifo \<subseteq> V \<Longrightarrow>
           inv_reachable_loop h fifo b = Some (\<exists>s \<in> set fifo. (b, s) \<in> (up h V)\<^sup>+)"
  using wf_mult [OF wfR]
proof (induction "mset fifo" arbitrary: fifo rule: wf_induct_rule)
  case less
  show ?case
  proof (cases fifo)
    case Nil
    then show ?thesis by (subst inv_reachable_loop.simps) simp
  next
    case (Cons n rest)
    let ?ps = "parents (h ! n)"
    have nV: "n \<in> V" and restV: "set rest \<subseteq> V" using less.prems Cons by auto
    have step: "\<And>p. p \<in> set ?ps \<Longrightarrow> (p, n) \<in> up h V" using nV by (simp add: up_def)
    show ?thesis
    proof (cases "b \<in> set ?ps")
      case True
      then have "(b, n) \<in> (up h V)\<^sup>+" using step by blast
      moreover have "fst (scan_parents ?ps b rest) = True" using True by (rule scan_parents_found)
      ultimately show ?thesis
        unfolding Cons by (subst inv_reachable_loop.simps) (auto split: prod.splits)
    next
      case False
      have sp: "scan_parents ?ps b rest = (False, rev ?ps @ rest)"
        using False by (rule scan_parents_not_found)
      have "\<forall>p \<in> set ?ps. (p, n) \<in> up h V" using step by blast
      then have m: "(mset (rev ?ps @ rest), mset fifo) \<in> mult (up h V)"
        unfolding Cons by (rule push_children_less)
      have sub: "set (rev ?ps @ rest) \<subseteq> V" using closed nV restV by auto
      have rec: "inv_reachable_loop h (rev ?ps @ rest) b =
                   Some (\<exists>s \<in> set (rev ?ps @ rest). (b, s) \<in> (up h V)\<^sup>+)"
        using less.hyps [OF m sub] .
      have "(b, n) \<in> (up h V)\<^sup>+ \<longleftrightarrow> (\<exists>p \<in> set ?ps. (b, p) \<in> (up h V)\<^sup>+)"
      proof
        assume "(b, n) \<in> (up h V)\<^sup>+"
        then show "\<exists>p \<in> set ?ps. (b, p) \<in> (up h V)\<^sup>+"
        proof (cases rule: tranclE)
          case base
          then show ?thesis using False by (simp add: up_def)
        next
          case (step p)
          then show ?thesis by (auto simp: up_def)
        qed
      next
        assume "\<exists>p \<in> set ?ps. (b, p) \<in> (up h V)\<^sup>+"
        then show "(b, n) \<in> (up h V)\<^sup>+" using step by (meson trancl.trancl_into_trancl)
      qed
      then have "(\<exists>s \<in> set (rev ?ps @ rest). (b, s) \<in> (up h V)\<^sup>+) \<longleftrightarrow>
                 (\<exists>s \<in> set fifo. (b, s) \<in> (up h V)\<^sup>+)"
        unfolding Cons by auto
      then show ?thesis
        using rec sp unfolding Cons by (subst inv_reachable_loop.simps) simp
    qed
  qed
qed

section \<open>Deleting and restoring one edge\<close>

lemma well_formedI:
  assumes "distinct (map fst dag)" and "distinct (map snd dag)"
    and "\<And>a. a \<in> nodes dag \<Longrightarrow>
           a < length h \<and> distinct (parents (h ! a)) \<and> distinct (children (h ! a))"
    and "\<And>a p. a \<in> nodes dag \<Longrightarrow> p \<in> set (parents (h ! a)) \<Longrightarrow>
           p \<in> nodes dag \<and> a \<in> set (children (h ! p))"
    and "\<And>a c. a \<in> nodes dag \<Longrightarrow> c \<in> set (children (h ! a)) \<Longrightarrow>
           c \<in> nodes dag \<and> a \<in> set (parents (h ! c))"
  shows "well_formed h dag"
  unfolding well_formed_def using assms unfolding nodes_def by blast

lemma well_formed_distinct:
  assumes "well_formed h dag"
  shows "distinct (map fst dag)" and "distinct (map snd dag)"
  using assms unfolding well_formed_def by blast+

lemma up_edges:
  assumes "well_formed h dag"
  shows "up h (nodes dag) = edges h dag"
proof (intro equalityI subrelI)
  fix p x assume "(p, x) \<in> up h (nodes dag)"
  then have x: "x \<in> nodes dag" "p \<in> set (parents (h ! x))" by (simp_all add: up_def)
  show "(p, x) \<in> edges h dag"
    using well_formedD(4) [OF assms x] well_formedD(6) [OF assms x] by (simp add: edges_iff)
next
  fix p x assume "(p, x) \<in> edges h dag"
  then have p: "p \<in> nodes dag" "x \<in> set (children (h ! p))" by (simp_all add: edges_iff)
  show "(p, x) \<in> up h (nodes dag)"
    using well_formedD(5) [OF assms p] well_formedD(7) [OF assms p] by (simp add: up_def)
qed

lemma cut_edge:
  assumes wf: "well_formed h dag" and n: "n \<in> nodes dag" and c: "c \<in> set (children (h ! n))"
  defines "ha \<equiv> h[c := (h ! c)\<lparr>parents := remove1 n (parents (h ! c))\<rparr>]"
  defines "hb \<equiv> ha[n := (ha ! n)\<lparr>children := remove1 c (children (ha ! n))\<rparr>]"
  shows "up ha (nodes dag) = edges h dag - {(n, c)}"
    and "\<forall>x \<in> nodes dag. set (parents (ha ! x)) \<subseteq> nodes dag"
    and "c \<in> set (children (ha ! n))"
    and "well_formed hb dag"
    and "edges hb dag = edges h dag - {(n, c)}"
    and "length hb = length h"
    and "\<And>a. level (hb ! a) = level (h ! a) \<and> job_id (hb ! a) = job_id (h ! a) \<and>
              job_name (hb ! a) = job_name (h ! a)"
    and "\<And>a. a \<notin> nodes dag \<Longrightarrow> hb ! a = h ! a"
    and "\<And>a. children (hb ! a) = (if a = n then remove1 c (children (h ! n)) else children (h ! a))"
proof -
  have cn: "c \<in> nodes dag" using well_formedD(5) [OF wf n c] .
  have cl: "c < length h" and nl: "n < length h"
    using well_formedD(1) [OF wf] cn n by auto
  have ha: "\<And>a. ha ! a = (if a = c then (h ! c)\<lparr>parents := remove1 n (parents (h ! c))\<rparr> else h ! a)"
    using cl by (simp add: ha_def nth_list_update)
  have la: "length ha = length h" by (simp add: ha_def)
  have hb: "\<And>a. hb ! a = (if a = n then (ha ! n)\<lparr>children := remove1 c (children (ha ! n))\<rparr>
                           else ha ! a)"
    using nl la by (simp add: hb_def nth_list_update)
  have pa: "\<And>a. parents (ha ! a) = (if a = c then remove1 n (parents (h ! c)) else parents (h ! a))"
    by (simp add: ha)
  have ca: "\<And>a. children (ha ! a) = children (h ! a)" by (simp add: ha)
  have pb: "\<And>a. parents (hb ! a) = (if a = c then remove1 n (parents (h ! c)) else parents (h ! a))"
    by (simp add: hb pa)
  show cb: "\<And>a. children (hb ! a) = (if a = n then remove1 c (children (h ! n)) else children (h ! a))"
    by (simp add: hb ca)
  have dp: "\<And>a. a \<in> nodes dag \<Longrightarrow> distinct (parents (h ! a))"
    and dc: "\<And>a. a \<in> nodes dag \<Longrightarrow> distinct (children (h ! a))"
    using well_formedD(2,3) [OF wf] by auto
  have spa: "\<And>a. set (parents (ha ! a)) =
      (if a = c then set (parents (h ! c)) - {n} else set (parents (h ! a)))"
    using dp [OF cn] by (simp add: pa)
  have scb: "\<And>a. set (children (hb ! a)) =
      (if a = n then set (children (h ! n)) - {c} else set (children (h ! a)))"
    using dc [OF n] by (simp add: cb)
  have spb: "\<And>a. set (parents (hb ! a)) =
      (if a = c then set (parents (h ! c)) - {n} else set (parents (h ! a)))"
    using dp [OF cn] by (simp add: pb)
  show "up ha (nodes dag) = edges h dag - {(n, c)}"
  proof -
    have "\<And>p x. (p, x) \<in> up ha (nodes dag) \<longleftrightarrow> (p, x) \<in> up h (nodes dag) - {(n, c)}"
      by (simp add: up_def spa, blast?)
    then have "up ha (nodes dag) = up h (nodes dag) - {(n, c)}" by (intro set_eqI) auto
    then show ?thesis using up_edges [OF wf] by simp
  qed
  show "\<forall>x \<in> nodes dag. set (parents (ha ! x)) \<subseteq> nodes dag"
  proof (intro ballI subsetI)
    fix x p assume x: "x \<in> nodes dag" and "p \<in> set (parents (ha ! x))"
    then have "p \<in> set (parents (h ! x))" by (simp add: spa split: if_splits)
    then show "p \<in> nodes dag" using well_formedD(4) [OF wf x] by blast
  qed
  show "c \<in> set (children (ha ! n))" using c by (simp add: ca)
  show "length hb = length h" by (simp add: hb_def la)
  show "\<And>a. level (hb ! a) = level (h ! a) \<and> job_id (hb ! a) = job_id (h ! a) \<and>
              job_name (hb ! a) = job_name (h ! a)"
    by (simp add: hb ha)
  show "\<And>a. a \<notin> nodes dag \<Longrightarrow> hb ! a = h ! a"
    using n cn by (auto simp: hb ha)
  show "edges hb dag = edges h dag - {(n, c)}"
  proof -
    have "\<And>p x. (p, x) \<in> edges hb dag \<longleftrightarrow> (p, x) \<in> edges h dag - {(n, c)}"
      by (simp add: edges_iff scb, blast?)
    then show ?thesis by (intro set_eqI) auto
  qed
  show "well_formed hb dag"
  proof (rule well_formedI)
    show "distinct (map fst dag)" "distinct (map snd dag)"
      using well_formed_distinct [OF wf] by auto
  next
    fix a assume a: "a \<in> nodes dag"
    have "length hb = length h" by (simp add: hb_def la)
    moreover have "distinct (parents (hb ! a))"
      using dp [OF a] distinct_remove1 [OF dp [OF cn], of n] by (simp add: pb)
    moreover have "distinct (children (hb ! a))"
      using dc [OF a] distinct_remove1 [OF dc [OF n], of c] by (simp add: cb)
    ultimately show "a < length hb \<and> distinct (parents (hb ! a)) \<and> distinct (children (hb ! a))"
      using well_formedD(1) [OF wf a] by simp
  next
    fix a p assume a: "a \<in> nodes dag" and p: "p \<in> set (parents (hb ! a))"
    have p0: "p \<in> set (parents (h ! a))" "\<not> (a = c \<and> p = n)"
      using p by (simp_all add: spb split: if_splits)
    have pn: "p \<in> nodes dag" using well_formedD(4) [OF wf a p0(1)] .
    have "a \<in> set (children (h ! p))" using well_formedD(6) [OF wf a p0(1)] .
    then have "a \<in> set (children (hb ! p))" using p0(2) by (auto simp: scb)
    then show "p \<in> nodes dag \<and> a \<in> set (children (hb ! p))" using pn by simp
  next
    fix a x assume a: "a \<in> nodes dag" and x: "x \<in> set (children (hb ! a))"
    have x0: "x \<in> set (children (h ! a))" "\<not> (a = n \<and> x = c)"
      using x by (simp_all add: scb split: if_splits)
    have xn: "x \<in> nodes dag" using well_formedD(5) [OF wf a x0(1)] .
    have "a \<in> set (parents (h ! x))" using well_formedD(7) [OF wf a x0(1)] .
    then have "a \<in> set (parents (hb ! x))" using x0(2) by (auto simp: spb)
    then show "x \<in> nodes dag \<and> a \<in> set (parents (hb ! x))" using xn by simp
  qed
qed

lemma restore_edge:
  assumes wf: "well_formed h dag" and n: "n \<in> nodes dag" and c: "c \<in> set (children (h ! n))"
  defines "ha \<equiv> h[c := (h ! c)\<lparr>parents := remove1 n (parents (h ! c))\<rparr>]"
  defines "hc \<equiv> ha[c := (ha ! c)\<lparr>parents := parents (ha ! c) @ [n]\<rparr>]"
  shows "well_formed hc dag"
    and "edges hc dag = edges h dag"
    and "length hc = length h"
    and "\<And>a. level (hc ! a) = level (h ! a) \<and> job_id (hc ! a) = job_id (h ! a) \<and>
              job_name (hc ! a) = job_name (h ! a)"
    and "\<And>a. a \<notin> nodes dag \<Longrightarrow> hc ! a = h ! a"
    and "\<And>a. children (hc ! a) = children (h ! a)"
proof -
  have cn: "c \<in> nodes dag" using well_formedD(5) [OF wf n c] .
  have cl: "c < length h" using well_formedD(1) [OF wf cn] .
  have nc: "n \<in> set (parents (h ! c))" using well_formedD(7) [OF wf n c] .
  have ha: "\<And>a. ha ! a = (if a = c then (h ! c)\<lparr>parents := remove1 n (parents (h ! c))\<rparr> else h ! a)"
    using cl by (simp add: ha_def nth_list_update)
  have la: "length ha = length h" by (simp add: ha_def)
  have hc: "\<And>a. hc ! a = (if a = c then (ha ! c)\<lparr>parents := parents (ha ! c) @ [n]\<rparr> else ha ! a)"
    using cl la by (simp add: hc_def nth_list_update)
  have pc: "\<And>a. parents (hc ! a) =
      (if a = c then remove1 n (parents (h ! c)) @ [n] else parents (h ! a))"
    by (simp add: hc ha)
  show cc: "\<And>a. children (hc ! a) = children (h ! a)" by (simp add: hc ha)
  have dpc: "distinct (parents (h ! c))" using well_formedD(2) [OF wf cn] .
  have spc: "\<And>a. set (parents (hc ! a)) = set (parents (h ! a))"
    using dpc nc by (auto simp: pc)
  have dp: "\<And>a. a \<in> nodes dag \<Longrightarrow> distinct (parents (hc ! a))"
    using well_formedD(2) [OF wf] dpc by (auto simp: pc)
  show "length hc = length h" by (simp add: hc_def la)
  show "\<And>a. level (hc ! a) = level (h ! a) \<and> job_id (hc ! a) = job_id (h ! a) \<and>
              job_name (hc ! a) = job_name (h ! a)"
    by (simp add: hc ha)
  show "\<And>a. a \<notin> nodes dag \<Longrightarrow> hc ! a = h ! a"
    using cn by (auto simp: hc ha)
  show "edges hc dag = edges h dag" by (auto simp: edges_iff cc)
  show "well_formed hc dag"
  proof (rule well_formedI)
    show "distinct (map fst dag)" "distinct (map snd dag)"
      using well_formed_distinct [OF wf] by auto
  next
    fix a assume a: "a \<in> nodes dag"
    have "length hc = length h" by (simp add: hc_def la)
    then show "a < length hc \<and> distinct (parents (hc ! a)) \<and> distinct (children (hc ! a))"
      using well_formedD(1,3) [OF wf a] dp [OF a] by (simp add: cc)
  next
    fix a p assume a: "a \<in> nodes dag" and p: "p \<in> set (parents (hc ! a))"
    then show "p \<in> nodes dag \<and> a \<in> set (children (hc ! p))"
      using well_formedD(4,6) [OF wf a] by (simp add: spc cc)
  next
    fix a x assume a: "a \<in> nodes dag" and x: "x \<in> set (children (hc ! a))"
    then show "x \<in> nodes dag \<and> a \<in> set (parents (hc ! x))"
      using well_formedD(5,7) [OF wf a] by (simp add: spc cc)
  qed
qed

lemma rtrancl_insert_redundant:
  assumes "(a, b) \<in> R\<^sup>*"
  shows "(insert (a, b) R)\<^sup>* = R\<^sup>*"
proof (rule rtrancl_subset)
  show "R \<subseteq> insert (a, b) R" by blast
  show "insert (a, b) R \<subseteq> R\<^sup>*" using assms by auto
qed

lemma redundant_mono:
  assumes "edges h' dag \<subseteq> edges h dag" and "redundant h' dag n c"
  shows "redundant h dag n c"
proof -
  have "edges h' dag - {(n, c)} \<subseteq> edges h dag - {(n, c)}" using assms(1) by blast
  then show ?thesis using assms(2) unfolding redundant_def by (meson trancl_mono)
qed

lemma elim_invD:
  assumes "elim_inv h1 dag r h"
  shows "well_formed h dag" and "length h = length h1" and "h ! r = h1 ! r"
    and "\<And>a. level (h ! a) = level (h1 ! a)"
    and "\<And>a. job_id (h ! a) = job_id (h1 ! a)"
    and "\<And>a. job_name (h ! a) = job_name (h1 ! a)"
    and "edges h dag \<subseteq> edges h1 dag"
    and "tight h1 (nodes dag) \<subseteq> edges h dag"
    and "(edges h dag)\<^sup>* = (edges h1 dag)\<^sup>*"
  using assms unfolding elim_inv_def by blast+

lemma labelledD:
  assumes "labelled h dag r"
  shows "r < length h" and "r \<notin> nodes dag" and "level (h ! r) = 0" and "parents (h ! r) = []"
    and "distinct (children (h ! r))"
    and "\<And>c. c \<in> set (children (h ! r)) \<Longrightarrow> c \<in> nodes dag \<and> level (h ! c) = 1"
    and "\<And>p c. p \<in> nodes dag \<Longrightarrow> c \<in> set (children (h ! p)) \<Longrightarrow> level (h ! p) + 1 \<le> level (h ! c)"
    and "\<And>v. v \<in> nodes dag \<Longrightarrow> \<exists>p \<in> insert r (nodes dag).
           v \<in> set (children (h ! p)) \<and> level (h ! v) = level (h ! p) + 1"
  using assms unfolding labelled_def by blast+

text \<open>One round of the inner loop for an edge that spans more than one level.\<close>

lemma eliminate_one:
  assumes lab: "labelled h1 dag r" and ac: "acyclic_dag h1 dag" and inv: "elim_inv h1 dag r h"
    and n: "n \<in> nodes dag" and c: "c \<in> set (children (h ! n))"
    and far: "level (h ! c) - level (h ! n) > 1"
  shows "\<exists>h'. (\<forall>cs fifo. eliminate_children h n (c # cs) fifo =
                   eliminate_children h' n cs (c # fifo)) \<and>
              elim_inv h1 dag r h' \<and>
              edges h' dag = (if redundant h dag n c then edges h dag - {(n, c)} else edges h dag) \<and>
              (\<forall>a. children (h' ! a) =
                 (if a = n \<and> redundant h dag n c then remove1 c (children (h ! n))
                  else children (h ! a)))"
proof -
  let ?ha = "h[c := (h ! c)\<lparr>parents := remove1 n (parents (h ! c))\<rparr>]"
  let ?hb = "?ha[n := (?ha ! n)\<lparr>children := remove1 c (children (?ha ! n))\<rparr>]"
  let ?hc = "?ha[c := (?ha ! c)\<lparr>parents := parents (?ha ! c) @ [n]\<rparr>]"
  note wf = elim_invD(1) [OF inv]
  note cut = cut_edge [OF wf n c]
  note res = restore_edge [OF wf n c]
  have cn: "c \<in> nodes dag" using well_formedD(5) [OF wf n c] .
  have np: "n \<in> set (parents (h ! c))" using well_formedD(7) [OF wf n c] .
  have rn: "r \<notin> nodes dag" using labelledD(2) [OF lab] .
  have "up ?ha (nodes dag) \<subseteq> edges h1 dag"
    using cut(1) elim_invD(7) [OF inv] by blast
  then have wfu: "wf (up ?ha (nodes dag))" using wf_edges(1) [OF ac] by (rule wf_subset [rotated])
  have "inv_reachable_loop ?ha [c] n = Some (\<exists>s \<in> set [c]. (n, s) \<in> (up ?ha (nodes dag))\<^sup>+)"
    using wfu cut(2) by (rule inv_reachable_loop_spec) (simp add: cn)
  then have reach: "inv_reachable ?ha c n = Some (redundant h dag n c)"
    by (simp add: inv_reachable_def redundant_def cut(1))
  show ?thesis
  proof (cases "redundant h dag n c")
    case True
    have run: "\<forall>cs fifo. eliminate_children h n (c # cs) fifo =
                 eliminate_children ?hb n cs (c # fifo)"
      using far np reach True cut(3) by (simp add: Let_def)
    have nc: "(n, c) \<in> edges h dag" using n c by (simp add: edges_iff)
    have e: "edges ?hb dag = edges h dag - {(n, c)}" using cut(5) .
    have "(n, c) \<in> (edges ?hb dag)\<^sup>*"
      using True unfolding redundant_def e by (rule trancl_into_rtrancl)
    then have "(insert (n, c) (edges ?hb dag))\<^sup>* = (edges ?hb dag)\<^sup>*"
      by (rule rtrancl_insert_redundant)
    moreover have "insert (n, c) (edges ?hb dag) = edges h dag" using e nc by blast
    ultimately have star: "(edges ?hb dag)\<^sup>* = (edges h1 dag)\<^sup>*"
      using elim_invD(9) [OF inv] by simp
    have "(n, c) \<notin> tight h1 (nodes dag)"
      using far by (simp add: tight_def elim_invD(4) [OF inv, symmetric])
    then have t: "tight h1 (nodes dag) \<subseteq> edges ?hb dag"
      using elim_invD(8) [OF inv] e by blast
    have "elim_inv h1 dag r ?hb"
      unfolding elim_inv_def
      using cut(4) cut(6) cut(7) cut(8) [OF rn] elim_invD(2-7) [OF inv] e t star
      by auto
    moreover have "\<forall>a. children (?hb ! a) =
                 (if a = n \<and> redundant h dag n c then remove1 c (children (h ! n))
                  else children (h ! a))"
      using True cut(9) by simp
    ultimately show ?thesis using run e True by (intro exI [of _ ?hb]) simp
  next
    case False
    have run: "\<forall>cs fifo. eliminate_children h n (c # cs) fifo =
                 eliminate_children ?hc n cs (c # fifo)"
      using far np reach False by (simp add: Let_def)
    have "elim_inv h1 dag r ?hc"
      unfolding elim_inv_def
      using res(1) res(2) res(3) res(4) res(5) [OF rn] elim_invD(2-9) [OF inv]
      by auto
    moreover have "\<forall>a. children (?hc ! a) =
                 (if a = n \<and> redundant h dag n c then remove1 c (children (h ! n))
                  else children (h ! a))"
      using False res(6) by simp
    ultimately show ?thesis using run res(2) False by (intro exI [of _ ?hc]) simp
  qed
qed

section \<open>The inner loop of the second pass\<close>

lemma eliminate_children_spec:
  assumes lab: "labelled h1 dag r" and ac: "acyclic_dag h1 dag"
  shows "elim_inv h1 dag r h \<Longrightarrow> n \<in> insert r (nodes dag) \<Longrightarrow>
         set cs \<subseteq> set (children (h ! n)) \<Longrightarrow> distinct cs \<Longrightarrow>
         \<exists>h'. eliminate_children h n cs fifo = Some (Inr (h', rev cs @ fifo)) \<and>
              elim_inv h1 dag r h' \<and>
              edges h' dag \<subseteq> edges h dag \<and>
              (\<forall>a. a \<noteq> n \<longrightarrow> children (h' ! a) = children (h ! a)) \<and>
              set (children (h' ! n)) \<subseteq> set (children (h ! n)) \<and>
              set (children (h ! n)) - set cs \<subseteq> set (children (h' ! n)) \<and>
              (\<forall>c \<in> set cs. c \<in> set (children (h' ! n)) \<longrightarrow>
                 level (h' ! c) - level (h' ! n) \<le> 1 \<or> \<not> redundant h' dag n c) \<and>
              ((\<forall>c \<in> set cs. level (h ! c) - level (h ! n) \<le> 1 \<or> \<not> redundant h dag n c) \<longrightarrow>
                 edges h' dag = edges h dag)"
proof (induction cs arbitrary: h fifo)
  case Nil
  then show ?case by simp
next
  case (Cons c cs)
  note inv = Cons.prems(1)
  have c: "c \<in> set (children (h ! n))" and cs: "set cs \<subseteq> set (children (h ! n))"
    and ccs: "c \<notin> set cs" and dcs: "distinct cs"
    using Cons.prems(3,4) by auto
  have lv: "\<And>h' a. elim_inv h1 dag r h' \<Longrightarrow> level (h' ! a) = level (h ! a)"
    using elim_invD(4) [OF inv] elim_invD(4) by simp
  show ?case
  proof (cases "level (h ! c) - level (h ! n) > 1")
    case False
    from Cons.IH [OF inv Cons.prems(2) cs dcs, of "c # fifo"] obtain h' where h':
      "eliminate_children h n cs (c # fifo) = Some (Inr (h', rev cs @ c # fifo))"
      "elim_inv h1 dag r h'" "edges h' dag \<subseteq> edges h dag"
      "\<forall>a. a \<noteq> n \<longrightarrow> children (h' ! a) = children (h ! a)"
      "set (children (h' ! n)) \<subseteq> set (children (h ! n))"
      "set (children (h ! n)) - set cs \<subseteq> set (children (h' ! n))"
      "\<forall>c \<in> set cs. c \<in> set (children (h' ! n)) \<longrightarrow>
                 level (h' ! c) - level (h' ! n) \<le> 1 \<or> \<not> redundant h' dag n c"
      "(\<forall>c \<in> set cs. level (h ! c) - level (h ! n) \<le> 1 \<or> \<not> redundant h dag n c) \<longrightarrow>
                 edges h' dag = edges h dag"
      by blast
    have run: "eliminate_children h n (c # cs) fifo = Some (Inr (h', rev (c # cs) @ fifo))"
      using False h'(1) by simp
    have keep: "set (children (h ! n)) - set (c # cs) \<subseteq> set (children (h' ! n))"
      using h'(6) by auto
    have near: "level (h' ! c) - level (h' ! n) \<le> 1"
      using False lv [OF h'(2)] by simp
    have settled: "\<forall>x \<in> set (c # cs). x \<in> set (children (h' ! n)) \<longrightarrow>
                 level (h' ! x) - level (h' ! n) \<le> 1 \<or> \<not> redundant h' dag n x"
      using near h'(7) by simp
    have same: "(\<forall>x \<in> set (c # cs). level (h ! x) - level (h ! n) \<le> 1 \<or> \<not> redundant h dag n x) \<longrightarrow>
                 edges h' dag = edges h dag"
      using h'(8) by simp
    show ?thesis using run h'(2,3,4,5) keep settled same by blast
  next
    case True
    have nr: "n \<noteq> r"
    proof
      assume "n = r"
      then have "c \<in> set (children (h1 ! r))" using c elim_invD(3) [OF inv] by simp
      then have "level (h1 ! c) = 1" using labelledD(6) [OF lab] by blast
      then show False
        using True \<open>n = r\<close> labelledD(3) [OF lab] elim_invD(4) [OF inv] by simp
    qed
    then have n: "n \<in> nodes dag" using Cons.prems(2) by simp
    from eliminate_one [OF lab ac inv n c True] obtain hm where hm:
      "\<And>cs fifo. eliminate_children h n (c # cs) fifo = eliminate_children hm n cs (c # fifo)"
      "elim_inv h1 dag r hm"
      "edges hm dag = (if redundant h dag n c then edges h dag - {(n, c)} else edges h dag)"
      "\<And>a. children (hm ! a) =
                 (if a = n \<and> redundant h dag n c then remove1 c (children (h ! n))
                  else children (h ! a))"
      by blast
    have cs_m: "set cs \<subseteq> set (children (hm ! n))"
    proof
      fix x assume x: "x \<in> set cs"
      then have "x \<noteq> c" "x \<in> set (children (h ! n))" using ccs cs by auto
      then show "x \<in> set (children (hm ! n))" by (simp add: hm(4))
    qed
    from Cons.IH [OF hm(2) Cons.prems(2) cs_m dcs, of "c # fifo"] obtain h' where h':
      "eliminate_children hm n cs (c # fifo) = Some (Inr (h', rev cs @ c # fifo))"
      "elim_inv h1 dag r h'" "edges h' dag \<subseteq> edges hm dag"
      "\<forall>a. a \<noteq> n \<longrightarrow> children (h' ! a) = children (hm ! a)"
      "set (children (h' ! n)) \<subseteq> set (children (hm ! n))"
      "set (children (hm ! n)) - set cs \<subseteq> set (children (h' ! n))"
      "\<forall>c \<in> set cs. c \<in> set (children (h' ! n)) \<longrightarrow>
                 level (h' ! c) - level (h' ! n) \<le> 1 \<or> \<not> redundant h' dag n c"
      "(\<forall>c \<in> set cs. level (hm ! c) - level (hm ! n) \<le> 1 \<or> \<not> redundant hm dag n c) \<longrightarrow>
                 edges h' dag = edges hm dag"
      by blast
    have run: "eliminate_children h n (c # cs) fifo = Some (Inr (h', rev (c # cs) @ fifo))"
      using hm(1) h'(1) by simp
    have sub_m: "edges hm dag \<subseteq> edges h dag" by (auto simp: hm(3) split: if_splits)
    have sub: "edges h' dag \<subseteq> edges h dag" using h'(3) sub_m by blast
    have other: "\<forall>a. a \<noteq> n \<longrightarrow> children (h' ! a) = children (h ! a)"
      using h'(4) by (simp add: hm(4))
    have dn: "distinct (children (h ! n))"
      using well_formedD(3) [OF elim_invD(1) [OF inv] n] .
    have ch_m: "set (children (hm ! n)) =
        (if redundant h dag n c then set (children (h ! n)) - {c} else set (children (h ! n)))"
      using dn by (simp add: hm(4))
    have shrink: "set (children (h' ! n)) \<subseteq> set (children (h ! n))"
      using h'(5) ch_m by (auto split: if_splits)
    have keep: "set (children (h ! n)) - set (c # cs) \<subseteq> set (children (h' ! n))"
      using h'(6) ch_m by (auto split: if_splits)
    have c_settled: "c \<in> set (children (h' ! n)) \<longrightarrow> \<not> redundant h' dag n c"
    proof
      assume "c \<in> set (children (h' ! n))"
      then have "c \<in> set (children (hm ! n))" using h'(5) by blast
      then have "\<not> redundant h dag n c" using ch_m by (auto split: if_splits)
      then show "\<not> redundant h' dag n c" using redundant_mono [OF sub] by blast
    qed
    have settled: "\<forall>x \<in> set (c # cs). x \<in> set (children (h' ! n)) \<longrightarrow>
                 level (h' ! x) - level (h' ! n) \<le> 1 \<or> \<not> redundant h' dag n x"
      using c_settled h'(7) by simp
    have same: "(\<forall>x \<in> set (c # cs). level (h ! x) - level (h ! n) \<le> 1 \<or> \<not> redundant h dag n x) \<longrightarrow>
                 edges h' dag = edges h dag"
    proof
      assume a: "\<forall>x \<in> set (c # cs). level (h ! x) - level (h ! n) \<le> 1 \<or> \<not> redundant h dag n x"
      then have nred: "\<not> redundant h dag n c" using True by simp
      then have em: "edges hm dag = edges h dag" by (simp add: hm(3))
      have "\<forall>x \<in> set cs. level (hm ! x) - level (hm ! n) \<le> 1 \<or> \<not> redundant hm dag n x"
        using a lv [OF hm(2)] by (simp add: redundant_def em)
      then show "edges h' dag = edges h dag" using h'(8) em by simp
    qed
    show ?thesis using run h'(2) sub other shrink keep settled same by blast
  qed
qed

section \<open>The outer loop of the second pass\<close>

lemma settled_mono:
  assumes "set (children (h' ! p)) \<subseteq> set (children (h ! p))"
    and "\<And>a. level (h' ! a) = level (h ! a)"
    and "edges h' dag \<subseteq> edges h dag"
    and "settled h dag p"
  shows "settled h' dag p"
  unfolding settled_def
proof
  fix c assume "c \<in> set (children (h' ! p))"
  then have "c \<in> set (children (h ! p))" using assms(1) by blast
  then have "level (h ! c) - level (h ! p) \<le> 1 \<or> \<not> redundant h dag p c"
    using assms(4) unfolding settled_def by blast
  then show "level (h' ! c) - level (h' ! p) \<le> 1 \<or> \<not> redundant h' dag p c"
    using assms(2) redundant_mono [OF assms(3)] by auto
qed

lemma graph_labelled:
  assumes "labelled h1 dag r"
  shows "graph h1 (insert r (nodes dag)) = edges h1 dag \<union> {r} \<times> set (children (h1 ! r))"
  by (auto simp: graph_def edges_iff)

lemma eliminate_edges_spec:
  assumes lab: "labelled h1 dag r" and ac: "acyclic_dag h1 dag" and wf1: "well_formed h1 dag"
  shows "elim_inv h1 dag r h \<Longrightarrow> set fifo \<subseteq> insert r (nodes dag) \<Longrightarrow>
         (\<forall>p \<in> insert r (nodes dag).
            settled h dag p \<or> (\<exists>s \<in> set fifo. (s, p) \<in> (tight h1 (insert r (nodes dag)))\<^sup>*)) \<Longrightarrow>
         \<exists>h'. eliminate_edges h fifo = Some (Inr h') \<and> elim_inv h1 dag r h' \<and>
              (\<forall>p \<in> insert r (nodes dag). settled h' dag p) \<and>
              edges h' dag \<subseteq> edges h dag \<and>
              ((\<forall>p \<in> insert r (nodes dag). settled h dag p) \<longrightarrow> edges h' dag = edges h dag)"
proof -
  let ?V = "insert r (nodes dag)"
  let ?G = "graph h1 ?V"
  let ?T = "tight h1 ?V"
  have G: "?G = edges h1 dag \<union> {r} \<times> set (children (h1 ! r))"
    using lab by (rule graph_labelled)
  have S: "set (children (h1 ! r)) \<subseteq> nodes dag" using labelledD(6) [OF lab] by blast
  have wfG: "wf (?G\<inverse>)"
    using wf1 ac G labelledD(2) [OF lab] S by (rule wf_graph_root)
  show "elim_inv h1 dag r h \<Longrightarrow> set fifo \<subseteq> ?V \<Longrightarrow>
         (\<forall>p \<in> ?V. settled h dag p \<or> (\<exists>s \<in> set fifo. (s, p) \<in> ?T\<^sup>*)) \<Longrightarrow>
         \<exists>h'. eliminate_edges h fifo = Some (Inr h') \<and> elim_inv h1 dag r h' \<and>
              (\<forall>p \<in> ?V. settled h' dag p) \<and>
              edges h' dag \<subseteq> edges h dag \<and>
              ((\<forall>p \<in> ?V. settled h dag p) \<longrightarrow> edges h' dag = edges h dag)"
    using wf_mult [OF wfG]
  proof (induction "mset fifo" arbitrary: h fifo rule: wf_induct_rule)
    case less
    note inv = less.prems(1)
    show ?case
    proof (cases fifo)
      case Nil
      then have "\<forall>p \<in> ?V. settled h dag p" using less.prems(3) by simp
      then show ?thesis using Nil inv by (subst eliminate_edges.simps) simp
    next
      case (Cons n rest)
      let ?cs = "children (h ! n)"
      have nV: "n \<in> ?V" and restV: "set rest \<subseteq> ?V" using less.prems(2) Cons by auto
      have cs1: "set ?cs \<subseteq> set (children (h1 ! n))"
      proof (cases "n = r")
        case True
        then show ?thesis using elim_invD(3) [OF inv] by simp
      next
        case False
        then have nn: "n \<in> nodes dag" using nV by simp
        show ?thesis
        proof
          fix c assume "c \<in> set ?cs"
          then have "(n, c) \<in> edges h dag" using nn by (simp add: edges_iff)
          then have "(n, c) \<in> edges h1 dag" using elim_invD(7) [OF inv] by blast
          then show "c \<in> set (children (h1 ! n))" by (simp add: edges_iff)
        qed
      qed
      have dcs: "distinct ?cs"
      proof (cases "n = r")
        case True
        then show ?thesis using elim_invD(3) [OF inv] labelledD(5) [OF lab] by simp
      next
        case False
        then have "n \<in> nodes dag" using nV by simp
        then show ?thesis using well_formedD(3) [OF elim_invD(1) [OF inv]] by blast
      qed
      from eliminate_children_spec [OF lab ac inv nV subset_refl dcs, of rest]
      obtain hm where hm:
        "eliminate_children h n ?cs rest = Some (Inr (hm, rev ?cs @ rest))"
        "elim_inv h1 dag r hm" "edges hm dag \<subseteq> edges h dag"
        "\<forall>a. a \<noteq> n \<longrightarrow> children (hm ! a) = children (h ! a)"
        "set (children (hm ! n)) \<subseteq> set ?cs"
        "\<forall>c \<in> set ?cs. c \<in> set (children (hm ! n)) \<longrightarrow>
                 level (hm ! c) - level (hm ! n) \<le> 1 \<or> \<not> redundant hm dag n c"
        "(\<forall>c \<in> set ?cs. level (h ! c) - level (h ! n) \<le> 1 \<or> \<not> redundant h dag n c) \<longrightarrow>
                 edges hm dag = edges h dag"
        by blast
      have lvm: "\<And>a. level (hm ! a) = level (h ! a)"
        using elim_invD(4) [OF inv] elim_invD(4) [OF hm(2)] by simp
      have chm: "\<And>p. set (children (hm ! p)) \<subseteq> set (children (h ! p))"
        using hm(4,5) by (metis subset_refl)
      have mono: "\<And>p. settled h dag p \<Longrightarrow> settled hm dag p"
        using chm lvm hm(3) by (rule settled_mono)
      have n_settled: "settled hm dag n"
        unfolding settled_def using hm(5,6) by blast
      have cover: "\<forall>p \<in> ?V. settled hm dag p \<or> (\<exists>s \<in> set (rev ?cs @ rest). (s, p) \<in> ?T\<^sup>*)"
      proof
        fix p assume p: "p \<in> ?V"
        show "settled hm dag p \<or> (\<exists>s \<in> set (rev ?cs @ rest). (s, p) \<in> ?T\<^sup>*)"
        proof (cases "settled hm dag p")
          case True
          then show ?thesis by simp
        next
          case False
          then have "\<not> settled h dag p" using mono by blast
          then obtain s where s: "s \<in> set (n # rest)" "(s, p) \<in> ?T\<^sup>*"
            using less.prems(3) p Cons by blast
          show ?thesis
          proof (cases "s \<in> set rest")
            case True
            then show ?thesis using s(2) by auto
          next
            case False
            then have sn: "s = n" using s(1) by simp
            have "p \<noteq> n" using \<open>\<not> settled hm dag p\<close> n_settled by blast
            then obtain y where y: "(n, y) \<in> ?T" "(y, p) \<in> ?T\<^sup>*"
              using s(2) sn by (metis converse_rtranclE)
            have "y \<in> set ?cs"
            proof (cases "n = r")
              case True
              then show ?thesis using y(1) elim_invD(3) [OF inv] by (simp add: tight_def)
            next
              case False
              then have "(n, y) \<in> tight h1 (nodes dag)" using y(1) by (simp add: tight_def)
              then have "(n, y) \<in> edges h dag" using elim_invD(8) [OF inv] by blast
              then show ?thesis by (simp add: edges_iff)
            qed
            then show ?thesis using y(2) by auto
          qed
        qed
      qed
      have "\<forall>c \<in> set ?cs. (c, n) \<in> ?G\<inverse>"
        using cs1 nV by (auto simp: graph_def)
      then have m: "(mset (rev ?cs @ rest), mset fifo) \<in> mult (?G\<inverse>)"
        unfolding Cons by (rule push_children_less)
      have sub: "set (rev ?cs @ rest) \<subseteq> ?V"
      proof -
        have "set (children (h1 ! n)) \<subseteq> nodes dag"
        proof (cases "n = r")
          case True
          then show ?thesis using S by simp
        next
          case False
          then have "n \<in> nodes dag" using nV by simp
          then show ?thesis using well_formedD(5) [OF wf1] by blast
        qed
        then show ?thesis using cs1 restV by auto
      qed
      from less.hyps [OF m hm(2) sub cover] obtain h' where h':
        "eliminate_edges hm (rev ?cs @ rest) = Some (Inr h')" "elim_inv h1 dag r h'"
        "\<forall>p \<in> ?V. settled h' dag p" "edges h' dag \<subseteq> edges hm dag"
        "(\<forall>p \<in> ?V. settled hm dag p) \<longrightarrow> edges h' dag = edges hm dag"
        by blast
      have run: "eliminate_edges h fifo = Some (Inr h')"
        using hm(1) h'(1) Cons by (subst eliminate_edges.simps) simp
      have same: "(\<forall>p \<in> ?V. settled h dag p) \<longrightarrow> edges h' dag = edges h dag"
      proof
        assume a: "\<forall>p \<in> ?V. settled h dag p"
        then have "settled h dag n" using nV by blast
        then have "edges hm dag = edges h dag" using hm(7) unfolding settled_def by blast
        moreover have "\<forall>p \<in> ?V. settled hm dag p" using a mono by blast
        ultimately show "edges h' dag = edges h dag" using h'(5) by simp
      qed
      show ?thesis using run h'(2,3,4) hm(3) same by blast
    qed
  qed
qed

section \<open>Both passes of simplify\<close>

lemma simplify_spec:
  assumes wf: "well_formed h dag" and ac: "acyclic_dag h dag" and un: "unlabelled h dag"
  shows "\<exists>h1 h2. assign_levels h dag = Some h1 \<and> simplify h dag = Some (Inr (h2, dag)) \<and>
           labelled h1 dag (length h) \<and> well_formed h1 dag \<and> acyclic_dag h1 dag \<and>
           edges h1 dag = edges h dag \<and>
           elim_inv h1 dag (length h) h2 \<and>
           (\<forall>p \<in> insert (length h) (nodes dag). settled h2 dag p)"
proof -
  let ?r = "length h"
  let ?h0 = "h @ [surrogate_root (find_roots h dag)]"
  let ?V = "insert ?r (nodes dag)"
  from assign_levels_spec [OF wf ac un] obtain h1 where
    run1: "assign_levels h dag = Some h1" and links: "same_links ?h0 h1"
    and r0: "level (h1 ! ?r) = 0"
    and long: "\<forall>v \<in> nodes dag.
              (\<exists>\<rho> k. \<rho> \<in> nodes dag \<and> parents (h ! \<rho>) = [] \<and> (\<rho>, v) \<in> edges h dag ^^ k \<and>
                     level (h1 ! v) = int k + 1) \<and>
              (\<forall>\<rho> k. \<rho> \<in> nodes dag \<and> parents (h ! \<rho>) = [] \<and> (\<rho>, v) \<in> edges h dag ^^ k \<longrightarrow>
                     int k + 1 \<le> level (h1 ! v))"
    and up1: "\<forall>p \<in> nodes dag. \<forall>c \<in> set (children (h ! p)). level (h1 ! p) + 1 \<le> level (h1 ! c)"
    and tp: "\<forall>v \<in> nodes dag. \<exists>p \<in> ?V.
              v \<in> set (children (h1 ! p)) \<and> level (h1 ! v) = level (h1 ! p) + 1"
    by blast
  have rn: "?r \<notin> nodes dag" using well_formedD(1) [OF wf] by blast
  have len1: "length h1 = Suc (length h)" using links by (simp add: same_links_def)
  have h0n: "\<And>a. a \<in> nodes dag \<Longrightarrow> ?h0 ! a = h ! a"
    using well_formedD(1) [OF wf] by (simp add: nth_append)
  have pa1: "\<And>a. a \<in> nodes dag \<Longrightarrow> parents (h1 ! a) = parents (h ! a)"
    and ch1: "\<And>a. a \<in> nodes dag \<Longrightarrow> children (h1 ! a) = children (h ! a)"
    using links h0n by (simp_all add: same_links_def)
  have par: "parents (h1 ! ?r) = []" and chr: "children (h1 ! ?r) = find_roots h dag"
    using links by (simp_all add: same_links_def surrogate_root_def)
  have wf1: "well_formed h1 dag"
  proof (rule well_formedI)
    show "distinct (map fst dag)" "distinct (map snd dag)"
      using well_formed_distinct [OF wf] by auto
  next
    fix a assume a: "a \<in> nodes dag"
    show "a < length h1 \<and> distinct (parents (h1 ! a)) \<and> distinct (children (h1 ! a))"
      using well_formedD(1,2,3) [OF wf a] by (simp add: pa1 [OF a] ch1 [OF a] len1)
  next
    fix a p assume a: "a \<in> nodes dag" and p: "p \<in> set (parents (h1 ! a))"
    then have p0: "p \<in> set (parents (h ! a))" by (simp add: pa1)
    have pn: "p \<in> nodes dag" using well_formedD(4) [OF wf a p0] .
    show "p \<in> nodes dag \<and> a \<in> set (children (h1 ! p))"
      using pn well_formedD(6) [OF wf a p0] by (simp add: ch1)
  next
    fix a c assume a: "a \<in> nodes dag" and c: "c \<in> set (children (h1 ! a))"
    then have c0: "c \<in> set (children (h ! a))" by (simp add: ch1)
    have cn: "c \<in> nodes dag" using well_formedD(5) [OF wf a c0] .
    show "c \<in> nodes dag \<and> a \<in> set (parents (h1 ! c))"
      using cn well_formedD(7) [OF wf a c0] by (simp add: pa1)
  qed
  have e1: "edges h1 dag = edges h dag"
  proof (intro set_eqI)
    fix x :: "addr \<times> addr"
    show "x \<in> edges h1 dag \<longleftrightarrow> x \<in> edges h dag"
      using ch1 by (cases x) (auto simp: edges_iff)
  qed
  have ac1: "acyclic_dag h1 dag" using ac by (simp add: acyclic_dag_def e1)
  have ge1: "\<And>v. v \<in> nodes dag \<Longrightarrow> 1 \<le> level (h1 ! v)"
  proof -
    fix v assume "v \<in> nodes dag"
    then obtain k where "level (h1 ! v) = int k + 1" using long by blast
    then show "1 \<le> level (h1 ! v)" by simp
  qed
  have root1: "\<And>c. c \<in> set (children (h1 ! ?r)) \<Longrightarrow> c \<in> nodes dag \<and> level (h1 ! c) = 1"
  proof -
    fix c assume "c \<in> set (children (h1 ! ?r))"
    then have c: "c \<in> nodes dag" "parents (h ! c) = []" by (simp_all add: chr set_find_roots)
    from long c(1) obtain \<rho> k where k: "(\<rho>, c) \<in> edges h dag ^^ k" "level (h1 ! c) = int k + 1"
      by blast
    have "k = 0"
    proof (cases k)
      case 0
      then show ?thesis .
    next
      case (Suc j)
      then obtain u where "(u, c) \<in> edges h dag" using k(1) by auto
      then have "u \<in> nodes dag" "c \<in> set (children (h ! u))" by (simp_all add: edges_iff)
      then have "u \<in> set (parents (h ! c))" using well_formedD(7) [OF wf] by blast
      then show ?thesis using c(2) by simp
    qed
    then show "c \<in> nodes dag \<and> level (h1 ! c) = 1" using k(2) c(1) by simp
  qed
  have lab: "labelled h1 dag ?r"
    unfolding labelled_def
  proof (intro conjI ballI)
    show "?r < length h1" by (simp add: len1)
    show "?r \<notin> nodes dag" by (rule rn)
    show "level (h1 ! ?r) = 0" by (rule r0)
    show "parents (h1 ! ?r) = []" by (rule par)
    show "distinct (children (h1 ! ?r))"
      using well_formed_distinct(2) [OF wf] by (simp add: chr find_roots_def)
  next
    fix c assume "c \<in> set (children (h1 ! ?r))"
    then show "c \<in> nodes dag" "level (h1 ! c) = 1" using root1 by blast+
  next
    fix p c assume "p \<in> nodes dag" "c \<in> set (children (h1 ! p))"
    then show "level (h1 ! p) + 1 \<le> level (h1 ! c)" using up1 by (simp add: ch1)
  next
    fix v assume "v \<in> nodes dag"
    then show "\<exists>p \<in> ?V. v \<in> set (children (h1 ! p)) \<and> level (h1 ! v) = level (h1 ! p) + 1"
      using tp by blast
  qed
  have inv1: "elim_inv h1 dag ?r h1"
    unfolding elim_inv_def using wf1 by (auto simp: tight_def edges_iff)
  have reach: "\<And>v. v \<in> ?V \<Longrightarrow> level (h1 ! v) = int k \<Longrightarrow> (?r, v) \<in> (tight h1 ?V)\<^sup>*" for k
  proof (induction k)
    case 0
    fix v assume "v \<in> ?V" "level (h1 ! v) = int 0"
    then have "v = ?r" using ge1 [of v] by auto
    then show "(?r, v) \<in> (tight h1 ?V)\<^sup>*" by simp
  next
    case (Suc k)
    fix v assume v: "v \<in> ?V" "level (h1 ! v) = int (Suc k)"
    then have vn: "v \<in> nodes dag" using r0 by auto
    from tp vn obtain p where p: "p \<in> ?V" "v \<in> set (children (h1 ! p))"
      "level (h1 ! v) = level (h1 ! p) + 1" by blast
    have "level (h1 ! p) = int k" using p(3) v(2) by simp
    then have "(?r, p) \<in> (tight h1 ?V)\<^sup>*" using Suc p(1) by blast
    moreover have "(p, v) \<in> tight h1 ?V" using p by (simp add: tight_def)
    ultimately show "(?r, v) \<in> (tight h1 ?V)\<^sup>*" by (rule rtrancl_into_rtrancl)
  qed
  have cover: "\<forall>p \<in> ?V. settled h1 dag p \<or> (\<exists>s \<in> set [?r]. (s, p) \<in> (tight h1 ?V)\<^sup>*)"
  proof
    fix p assume p: "p \<in> ?V"
    have "0 \<le> level (h1 ! p)" using ge1 [of p] r0 p by auto
    then obtain k where "level (h1 ! p) = int k" using nonneg_int_cases by blast
    then have "(?r, p) \<in> (tight h1 ?V)\<^sup>*" using reach p by blast
    then show "settled h1 dag p \<or> (\<exists>s \<in> set [?r]. (s, p) \<in> (tight h1 ?V)\<^sup>*)" by simp
  qed
  have "set [?r] \<subseteq> ?V" by simp
  from eliminate_edges_spec [OF lab ac1 wf1 inv1 this cover] obtain h2 where h2:
    "eliminate_edges h1 [?r] = Some (Inr h2)" "elim_inv h1 dag ?r h2"
    "\<forall>p \<in> ?V. settled h2 dag p"
    by blast
  have run2: "simplify h dag = Some (Inr (h2, dag))"
    using run1 h2(1) by (simp add: simplify_def)
  show ?thesis using run1 run2 lab wf1 ac1 e1 h2(2,3) by blast
qed

section \<open>What simplify guarantees\<close>


lemma diamond_well_formed: "well_formed diamond_heap diamond_dag"
  by code_simp

lemma diamond_unlabelled: "unlabelled diamond_heap diamond_dag"
  by code_simp

text \<open>
  C1: on a well-formed acyclic graph with fresh levels \<open>simplify\<close> returns, and between
  the store \<open>h1\<close> before its second loop and the store \<open>h2\<close> after it the relation
  ``\<open>a\<close> can reach \<open>b\<close>'' is the same for all \<open>a\<close> and \<open>b\<close>. The first loop changes no edge.
\<close>

theorem elimination_preserves_reachability:
  assumes "well_formed h dag" and "acyclic_dag h dag" and "unlabelled h dag"
  shows "\<exists>h1 h2. assign_levels h dag = Some h1 \<and> simplify h dag = Some (Inr (h2, dag)) \<and>
           edges h1 dag = edges h dag \<and>
           (\<forall>a b. reaches h2 dag a b \<longleftrightarrow> reaches h1 dag a b)"
proof -
  from simplify_spec [OF assms] obtain h1 h2 where s:
    "assign_levels h dag = Some h1" "simplify h dag = Some (Inr (h2, dag))"
    "edges h1 dag = edges h dag" "elim_inv h1 dag (length h) h2"
    by blast
  have "\<forall>a b. reaches h2 dag a b \<longleftrightarrow> reaches h1 dag a b"
    using elim_invD(9) [OF s(4)] by (simp add: reaches_def)
  then show ?thesis using s(1,2,3) by blast
qed

theorem elimination_preserves_reachability_witness:
  "well_formed diamond_heap diamond_dag \<and> acyclic_dag diamond_heap diamond_dag \<and>
   unlabelled diamond_heap diamond_dag \<and>
   (\<exists>h1 h2. assign_levels diamond_heap diamond_dag = Some h1 \<and>
      simplify diamond_heap diamond_dag = Some (Inr (h2, diamond_dag)) \<and>
      edges h1 diamond_dag = edges diamond_heap diamond_dag \<and>
      (\<forall>a b. reaches h2 diamond_dag a b \<longleftrightarrow> reaches h1 diamond_dag a b))"
  using diamond_well_formed diamond_acyclic diamond_unlabelled
    elimination_preserves_reachability [OF diamond_well_formed diamond_acyclic diamond_unlabelled]
  by simp

text \<open>
  C3: after the first loop every edge \<open>p \<rightarrow> c\<close> of the graph has
  \<open>c.level \<ge> p.level + 1\<close>, and so has every edge that is left after the second loop.
\<close>

theorem edges_go_up:
  assumes "well_formed h dag" and "acyclic_dag h dag" and "unlabelled h dag"
  shows "\<exists>h1 h2. assign_levels h dag = Some h1 \<and> simplify h dag = Some (Inr (h2, dag)) \<and>
           edges h1 dag = edges h dag \<and>
           (\<forall>(p, c) \<in> edges h1 dag. level (h1 ! c) \<ge> level (h1 ! p) + 1) \<and>
           edges h2 dag \<subseteq> edges h1 dag \<and>
           (\<forall>(p, c) \<in> edges h2 dag. level (h2 ! c) \<ge> level (h2 ! p) + 1)"
proof -
  from simplify_spec [OF assms] obtain h1 h2 where s:
    "assign_levels h dag = Some h1" "simplify h dag = Some (Inr (h2, dag))"
    "edges h1 dag = edges h dag" "elim_inv h1 dag (length h) h2" "labelled h1 dag (length h)"
    by blast
  have a: "\<forall>(p, c) \<in> edges h1 dag. level (h1 ! c) \<ge> level (h1 ! p) + 1"
    using labelledD(7) [OF s(5)] by (auto simp: edges_iff)
  have sub: "edges h2 dag \<subseteq> edges h1 dag" using elim_invD(7) [OF s(4)] .
  have "\<forall>(p, c) \<in> edges h2 dag. level (h2 ! c) \<ge> level (h2 ! p) + 1"
    using a sub by (auto simp: elim_invD(4) [OF s(4)])
  then show ?thesis using s(1,2,3) a sub by blast
qed

theorem edges_go_up_witness:
  "well_formed diamond_heap diamond_dag \<and> acyclic_dag diamond_heap diamond_dag \<and>
   unlabelled diamond_heap diamond_dag \<and>
   (\<exists>h1 h2. assign_levels diamond_heap diamond_dag = Some h1 \<and>
      simplify diamond_heap diamond_dag = Some (Inr (h2, diamond_dag)) \<and>
      edges h1 diamond_dag = edges diamond_heap diamond_dag \<and>
      (\<forall>(p, c) \<in> edges h1 diamond_dag. level (h1 ! c) \<ge> level (h1 ! p) + 1) \<and>
      edges h2 diamond_dag \<subseteq> edges h1 diamond_dag \<and>
      (\<forall>(p, c) \<in> edges h2 diamond_dag. level (h2 ! c) \<ge> level (h2 ! p) + 1))"
  using diamond_well_formed diamond_acyclic diamond_unlabelled
    edges_go_up [OF diamond_well_formed diamond_acyclic diamond_unlabelled]
  by simp

text \<open>
  C4: after \<open>simplify\<close> has returned the store \<open>h2\<close>, running its second loop once more
  from the surrogate root ends and removes nothing: the edges are the same set, and so
  are the parents of every job.
\<close>

theorem second_elimination_removes_nothing:
  assumes "well_formed h dag" and "acyclic_dag h dag" and "unlabelled h dag"
  shows "\<exists>h2 h3. simplify h dag = Some (Inr (h2, dag)) \<and>
           eliminate_edges h2 [length h] = Some (Inr h3) \<and>
           edges h3 dag = edges h2 dag \<and>
           (\<forall>a \<in> nodes dag. set (parents (h3 ! a)) = set (parents (h2 ! a)))"
proof -
  let ?V = "insert (length h) (nodes dag)"
  from simplify_spec [OF assms] obtain h1 h2 where s:
    "simplify h dag = Some (Inr (h2, dag))" "labelled h1 dag (length h)"
    "well_formed h1 dag" "acyclic_dag h1 dag" "elim_inv h1 dag (length h) h2"
    "\<forall>p \<in> ?V. settled h2 dag p"
    by blast
  have fifo: "set [length h] \<subseteq> ?V" by simp
  have cover: "\<forall>p \<in> ?V. settled h2 dag p \<or>
      (\<exists>s \<in> set [length h]. (s, p) \<in> (tight h1 ?V)\<^sup>*)"
    using s(6) by blast
  from eliminate_edges_spec [OF s(2,4,3,5) fifo cover] obtain h3 where h3:
    "eliminate_edges h2 [length h] = Some (Inr h3)" "elim_inv h1 dag (length h) h3"
    "(\<forall>p \<in> ?V. settled h2 dag p) \<longrightarrow> edges h3 dag = edges h2 dag"
    by blast
  have e: "edges h3 dag = edges h2 dag" using h3(3) s(6) by blast
  have "up h3 (nodes dag) = up h2 (nodes dag)"
    using up_edges [OF elim_invD(1) [OF h3(2)]] up_edges [OF elim_invD(1) [OF s(5)]] e by simp
  then have "\<forall>a \<in> nodes dag. set (parents (h3 ! a)) = set (parents (h2 ! a))"
    unfolding up_def by blast
  then show ?thesis using s(1) h3(1) e by blast
qed

theorem second_elimination_removes_nothing_witness:
  "well_formed diamond_heap diamond_dag \<and> acyclic_dag diamond_heap diamond_dag \<and>
   unlabelled diamond_heap diamond_dag \<and>
   (\<exists>h2 h3. simplify diamond_heap diamond_dag = Some (Inr (h2, diamond_dag)) \<and>
      eliminate_edges h2 [length diamond_heap] = Some (Inr h3) \<and>
      edges h3 diamond_dag = edges h2 diamond_dag \<and>
      (\<forall>a \<in> nodes diamond_dag. set (parents (h3 ! a)) = set (parents (h2 ! a))))"
  using diamond_well_formed diamond_acyclic diamond_unlabelled
    second_elimination_removes_nothing [OF diamond_well_formed diamond_acyclic diamond_unlabelled]
  by simp

section \<open>What simplify leaves alone\<close>

lemma frame_refl: "frame h h"
  by (simp add: frame_def)

lemma frame_trans: "frame h h1 \<Longrightarrow> frame h1 h2 \<Longrightarrow> frame h h2"
  unfolding frame_def by (metis subset_trans)

lemma same_links_frame: "same_links h h' \<Longrightarrow> frame h h'"
  by (simp add: same_links_def frame_def)

lemma same_links_sym_trans: "same_links h h1 \<Longrightarrow> same_links h1 h2 \<Longrightarrow> same_links h h2"
  by (rule same_links_trans)

lemma set_level_links:
  "same_links h (h[c := (h ! c)\<lparr>level := l\<rparr>])"
  by (simp add: same_links_def heap_upd_nth)

lemma label_children_links:
  "label_children h n cs fifo = (h', fifo') \<Longrightarrow> same_links h h' \<and> fifo' = rev cs @ fifo"
proof (induction cs arbitrary: h fifo)
  case Nil
  then show ?case by (simp add: same_links_refl)
next
  case (Cons c cs)
  let ?h1 = "h[c := (h ! c)\<lparr>level := max (level (h ! c)) (level (h ! n) + 1)\<rparr>]"
  have "label_children ?h1 n cs (c # fifo) = (h', fifo')" using Cons.prems by simp
  from Cons.IH [OF this] have "same_links ?h1 h'" "fifo' = rev cs @ c # fifo" by auto
  moreover have "same_links h ?h1" by (rule set_level_links)
  ultimately show ?case using same_links_trans by auto
qed

lemma label_levels_links:
  "label_levels h fifo = Some h' \<Longrightarrow> same_links h h'"
proof (induction rule: label_levels.raw_induct [rotated 1, consumes 1, case_names step])
  case (step f h fifo h')
  show ?case
  proof (cases fifo)
    case Nil
    then show ?thesis using step(2) by (simp add: same_links_refl)
  next
    case (Cons n rest)
    obtain hm fm where lc: "label_children h n (children (h ! n)) rest = (hm, fm)"
      by (cases "label_children h n (children (h ! n)) rest")
    then have "f hm fm = Some h'" using step(2) Cons by simp
    then have "same_links hm h'" by (rule step(1))
    moreover have "same_links h hm" using label_children_links [OF lc] by simp
    ultimately show ?thesis by (rule same_links_trans [rotated])
  qed
qed

lemma frame_update_parents:
  assumes "set ps \<subseteq> set (parents (h ! c))"
  shows "frame h (h[c := (h ! c)\<lparr>parents := ps\<rparr>])"
  using assms by (simp add: frame_def heap_upd_nth)

lemma frame_update_children:
  assumes "set cs \<subseteq> set (children (h ! n))"
  shows "frame h (h[n := (h ! n)\<lparr>children := cs\<rparr>])"
  using assms by (simp add: frame_def heap_upd_nth)

lemma eliminate_children_frame:
  "eliminate_children h n cs fifo = Some (Inr (h', fifo')) \<Longrightarrow> frame h h'"
proof (induction cs arbitrary: h fifo)
  case Nil
  then show ?case by (simp add: frame_refl)
next
  case (Cons c cs)
  let ?ha = "h[c := (h ! c)\<lparr>parents := remove1 n (parents (h ! c))\<rparr>]"
  let ?hb = "?ha[n := (?ha ! n)\<lparr>children := remove1 c (children (?ha ! n))\<rparr>]"
  let ?hc = "?ha[c := (?ha ! c)\<lparr>parents := parents (?ha ! c) @ [n]\<rparr>]"
  show ?case
  proof (cases "level (h ! c) - level (h ! n) > 1")
    case False
    then have "eliminate_children h n cs (c # fifo) = Some (Inr (h', fifo'))"
      using Cons.prems by simp
    then show ?thesis by (rule Cons.IH)
  next
    case True
    then have np: "n \<in> set (parents (h ! c))" using Cons.prems by (simp split: if_splits)
    have fa: "frame h ?ha"
      by (rule frame_update_parents) (rule set_remove1_subset)
    obtain b where b: "inv_reachable ?ha c n = Some b"
      using Cons.prems True np by (cases "inv_reachable ?ha c n") (simp_all add: Let_def)
    show ?thesis
    proof (cases b)
      case True
      have "eliminate_children ?hb n cs (c # fifo) = Some (Inr (h', fifo'))"
        using Cons.prems \<open>1 < level (h ! c) - level (h ! n)\<close> np b True
        by (simp add: Let_def split: if_splits)
      then have "frame ?hb h'" by (rule Cons.IH)
      moreover have "frame ?ha ?hb"
        by (rule frame_update_children) (rule set_remove1_subset)
      ultimately show ?thesis using fa frame_trans by blast
    next
      case False
      have "eliminate_children ?hc n cs (c # fifo) = Some (Inr (h', fifo'))"
        using Cons.prems \<open>1 < level (h ! c) - level (h ! n)\<close> np b False
        by (simp add: Let_def split: if_splits)
      then have "frame ?hc h'" by (rule Cons.IH)
      moreover have "frame h ?hc"
      proof -
        have "set (parents (?hc ! a)) \<subseteq> set (parents (h ! a))" for a
          using np set_remove1_subset [of n "parents (h ! c)"]
          by (auto simp: heap_upd_nth)
        then show ?thesis by (simp add: frame_def heap_upd_nth)
      qed
      ultimately show ?thesis using frame_trans by blast
    qed
  qed
qed

lemma eliminate_edges_frame:
  "eliminate_edges h fifo = Some res \<Longrightarrow> \<forall>h'. res = Inr h' \<longrightarrow> frame h h'"
proof (induction rule: eliminate_edges.raw_induct [rotated 1, consumes 1, case_names step])
  case (step f h fifo res)
  show ?case
  proof (intro allI impI)
    fix h' assume res: "res = Inr h'"
    show "frame h h'"
    proof (cases fifo)
      case Nil
      then show ?thesis using step(2) res by (simp add: frame_refl)
    next
      case (Cons n rest)
      obtain hm fm where ec: "eliminate_children h n (children (h ! n)) rest = Some (Inr (hm, fm))"
        and rec: "f hm fm = Some res"
        using step(2) res Cons by (auto split: option.splits sum.splits)
      have "frame hm h'" using step(1) [OF rec] res by blast
      moreover have "frame h hm" using ec by (rule eliminate_children_frame)
      ultimately show ?thesis using frame_trans by blast
    qed
  qed
qed

lemma simplify_runs:
  assumes "simplify h dag = Some (Inr (h', dag'))"
  shows "\<exists>h1. label_levels (h @ [surrogate_root (find_roots h dag)]) [length h] = Some h1 \<and>
              eliminate_edges h1 [length h] = Some (Inr h') \<and> dag' = dag"
  using assms
  by (auto simp: simplify_def assign_levels_def Let_def split: option.splits sum.splits)

lemma diamond_closed: "closed_heap diamond_heap diamond_dag"
  by code_simp

text \<open>
  C10: when the references of the store are valid and \<open>simplify\<close> returns, it returns the
  dictionary it was given. The store has one more object, the surrogate root, which is
  not in the dictionary, has no parents and is in no list of a job. The jobs keep their
  identifiers and names, and their lists of parents and children get no new member. On
  a well-formed acyclic graph with fresh levels \<open>simplify\<close> does return.
\<close>

theorem simplify_frame:
  assumes "closed_heap h dag"
  shows "(\<forall>h' dag'. simplify h dag = Some (Inr (h', dag')) \<longrightarrow>
            dag' = dag \<and> length h' = Suc (length h) \<and> length h \<notin> nodes dag \<and>
            job_id (h' ! length h) = Some ''root'' \<and> parents (h' ! length h) = [] \<and>
            (\<forall>a < length h.
               job_id (h' ! a) = job_id (h ! a) \<and> job_name (h' ! a) = job_name (h ! a) \<and>
               set (parents (h' ! a)) \<subseteq> set (parents (h ! a)) \<and>
               set (children (h' ! a)) \<subseteq> set (children (h ! a)) \<and>
               length h \<notin> set (parents (h' ! a)) \<and> length h \<notin> set (children (h' ! a)))) \<and>
         (well_formed h dag \<and> acyclic_dag h dag \<and> unlabelled h dag \<longrightarrow>
            (\<exists>h'. simplify h dag = Some (Inr (h', dag))))"
proof -
  have part: "dag' = dag \<and> length h' = Suc (length h) \<and> length h \<notin> nodes dag \<and>
            job_id (h' ! length h) = Some ''root'' \<and> parents (h' ! length h) = [] \<and>
            (\<forall>a < length h.
               job_id (h' ! a) = job_id (h ! a) \<and> job_name (h' ! a) = job_name (h ! a) \<and>
               set (parents (h' ! a)) \<subseteq> set (parents (h ! a)) \<and>
               set (children (h' ! a)) \<subseteq> set (children (h ! a)) \<and>
               length h \<notin> set (parents (h' ! a)) \<and> length h \<notin> set (children (h' ! a)))"
    if run: "simplify h dag = Some (Inr (h', dag'))" for h' dag'
  proof -
    let ?h0 = "h @ [surrogate_root (find_roots h dag)]"
    from simplify_runs [OF run] obtain h1 where h1:
      "label_levels ?h0 [length h] = Some h1" "eliminate_edges h1 [length h] = Some (Inr h')"
      "dag' = dag"
      by blast
    have "frame ?h0 h1" using label_levels_links [OF h1(1)] by (rule same_links_frame)
    moreover have "frame h1 h'" using eliminate_edges_frame [OF h1(2)] by blast
    ultimately have fr: "frame ?h0 h'" by (rule frame_trans)
    have 1: "length h' = Suc (length h)" using fr by (simp add: frame_def)
    have 2: "length h \<notin> nodes dag" using assms by (auto simp: closed_heap_def nodes_def)
    have 3: "job_id (h' ! length h) = Some ''root''"
      using fr by (simp add: frame_def surrogate_root_def)
    have 4: "parents (h' ! length h) = []"
    proof -
      have "set (parents (h' ! length h)) \<subseteq> set (parents (?h0 ! length h))"
        using fr unfolding frame_def by blast
      then show ?thesis by (simp add: surrogate_root_def)
    qed
    have 5: "\<forall>a < length h.
               job_id (h' ! a) = job_id (h ! a) \<and> job_name (h' ! a) = job_name (h ! a) \<and>
               set (parents (h' ! a)) \<subseteq> set (parents (h ! a)) \<and>
               set (children (h' ! a)) \<subseteq> set (children (h ! a)) \<and>
               length h \<notin> set (parents (h' ! a)) \<and> length h \<notin> set (children (h' ! a))"
    proof (intro allI impI)
      fix a assume a: "a < length h"
      have e: "?h0 ! a = h ! a" using a by (simp add: nth_append)
      have f: "job_id (h' ! a) = job_id (h ! a)" "job_name (h' ! a) = job_name (h ! a)"
        "set (parents (h' ! a)) \<subseteq> set (parents (h ! a))"
        "set (children (h' ! a)) \<subseteq> set (children (h ! a))"
        using fr e unfolding frame_def by metis+
      have "h ! a \<in> set h" using a by simp
      then have "length h \<notin> set (parents (h ! a))" "length h \<notin> set (children (h ! a))"
        using assms unfolding closed_heap_def by blast+
      then show "job_id (h' ! a) = job_id (h ! a) \<and> job_name (h' ! a) = job_name (h ! a) \<and>
               set (parents (h' ! a)) \<subseteq> set (parents (h ! a)) \<and>
               set (children (h' ! a)) \<subseteq> set (children (h ! a)) \<and>
               length h \<notin> set (parents (h' ! a)) \<and> length h \<notin> set (children (h' ! a))"
        using f by blast
    qed
    show ?thesis using h1(3) 1 2 3 4 5 by blast
  qed
  have total: "well_formed h dag \<and> acyclic_dag h dag \<and> unlabelled h dag \<longrightarrow>
            (\<exists>h'. simplify h dag = Some (Inr (h', dag)))"
    using simplify_spec [of h dag] by blast
  show ?thesis using part total by blast
qed

lemma diamond_simplify:
  "simplify diamond_heap diamond_dag = Some (Inr (diamond_simplified, diamond_dag))"
  by code_simp

theorem simplify_frame_witness:
  "closed_heap diamond_heap diamond_dag \<and>
   simplify diamond_heap diamond_dag = Some (Inr (diamond_simplified, diamond_dag)) \<and>
   length diamond_simplified = Suc (length diamond_heap) \<and>
   length diamond_heap \<notin> nodes diamond_dag \<and>
   job_id (diamond_simplified ! length diamond_heap) = Some ''root'' \<and>
   parents (diamond_simplified ! length diamond_heap) = [] \<and>
   3 < length diamond_heap \<and>
   job_id (diamond_simplified ! 3) = job_id (diamond_heap ! 3) \<and>
   job_name (diamond_simplified ! 3) = job_name (diamond_heap ! 3) \<and>
   set (parents (diamond_simplified ! 3)) \<subseteq> set (parents (diamond_heap ! 3)) \<and>
   set (children (diamond_simplified ! 3)) \<subseteq> set (children (diamond_heap ! 3)) \<and>
   length diamond_heap \<notin> set (parents (diamond_simplified ! 3)) \<and>
   length diamond_heap \<notin> set (children (diamond_simplified ! 3)) \<and>
   well_formed diamond_heap diamond_dag \<and> acyclic_dag diamond_heap diamond_dag \<and>
   unlabelled diamond_heap diamond_dag \<and>
   (\<exists>h'. simplify diamond_heap diamond_dag = Some (Inr (h', diamond_dag)))"
proof -
  have l: "3 < length diamond_heap" by (simp add: diamond_heap_def)
  show ?thesis
    using diamond_closed diamond_well_formed diamond_acyclic diamond_unlabelled diamond_simplify l
      simplify_frame [OF diamond_closed]
    by blast
qed

section \<open>Adjacency stays consistent\<close>













end
